theory Spec2Isabelle
  imports Main "HOL-Library.Sublist"
begin

section \<open>The document tree\<close>

text \<open>
  The content script (\<^verbatim>\<open>content/content.js\<close>) edits the host page through the DOM. The
  model keeps the part of a DOM node that the script reads or writes structurally: the tag
  name, the \<^verbatim>\<open>id\<close> attribute, the class list, the \<^verbatim>\<open>data-testid\<close> attribute, whether the
  element lives in the SVG namespace, the \<^verbatim>\<open>src\<close> attribute, and the click listener that
  \<^verbatim>\<open>createIcon\<close> installs (the listener closes over the \<^verbatim>\<open>link\<close> argument, so the element
  remembers that argument; \<open>None\<close> is JavaScript's \<^verbatim>\<open>undefined\<close>). Inline styles, the
  \<^verbatim>\<open>role\<close>, \<^verbatim>\<open>href\<close>, \<^verbatim>\<open>tabindex\<close>, \<^verbatim>\<open>title\<close> and \<^verbatim>\<open>alt\<close> attributes and the image's
  \<^verbatim>\<open>error\<close> listener are written by the script and never read back by the code modelled
  here; they have no field. An absent attribute is the empty string.

  A document is the list of the children of the \<^verbatim>\<open>Document\<close> node; a node is addressed by
  its path, the list of child indices (into \<^verbatim>\<open>childNodes\<close>, text nodes included) leading to
  it. The empty path is the \<^verbatim>\<open>Document\<close> itself and stands for \<^verbatim>\<open>null\<close> where the code
  expects an element.
\<close>

type_synonym path = "nat list"

record einfo =
  tag :: string
  ident :: string
  classes :: "string list"
  testid :: string
  svg_ns :: bool
  src :: string
  click_link :: "string option option"

datatype node = Text string | Elem einfo "node list"

fun kids :: "node \<Rightarrow> node list" where
  "kids (Elem i cs) = cs"
| "kids (Text t) = []"

fun is_elem :: "node \<Rightarrow> bool" where
  "is_elem (Elem i cs) = True"
| "is_elem (Text t) = False"

fun under :: "(node list \<Rightarrow> node list) \<Rightarrow> node \<Rightarrow> node" where
  "under f (Elem i cs) = Elem i (f cs)"
| "under f (Text t) = Text t"

fun node_at :: "node list \<Rightarrow> path \<Rightarrow> node option" where
  "node_at ns [] = None"
| "node_at ns [k] = (if k < length ns then Some (ns ! k) else None)"
| "node_at ns (k # j # p) = (if k < length ns then node_at (kids (ns ! k)) (j # p) else None)"

definition kids_at :: "node list \<Rightarrow> path \<Rightarrow> node list" where
  "kids_at d p = (case node_at d p of Some n \<Rightarrow> kids n | None \<Rightarrow> [])"

definition elem_at :: "node list \<Rightarrow> path \<Rightarrow> bool" where
  "elem_at d p = (case node_at d p of Some n \<Rightarrow> is_elem n | None \<Rightarrow> False)"

definition classes_at :: "node list \<Rightarrow> path \<Rightarrow> string list" where
  "classes_at d p = (case node_at d p of Some (Elem i cs) \<Rightarrow> classes i | _ \<Rightarrow> [])"

text \<open>Structural edits: a node inserted at a position (parent path followed by the child
  index it will have), a node removed, a node rewritten in place.\<close>

fun insert_at :: "path \<Rightarrow> node \<Rightarrow> node list \<Rightarrow> node list" where
  "insert_at [] n ns = ns"
| "insert_at [k] n ns = take k ns @ n # drop k ns"
| "insert_at (k # j # p) n ns =
     (if k < length ns then ns[k := under (insert_at (j # p) n) (ns ! k)] else ns)"

fun remove_at :: "path \<Rightarrow> node list \<Rightarrow> node list" where
  "remove_at [] ns = ns"
| "remove_at [k] ns = take k ns @ drop (Suc k) ns"
| "remove_at (k # j # p) ns =
     (if k < length ns then ns[k := under (remove_at (j # p)) (ns ! k)] else ns)"

fun map_at :: "path \<Rightarrow> (node \<Rightarrow> node) \<Rightarrow> node list \<Rightarrow> node list" where
  "map_at [] f ns = ns"
| "map_at [k] f ns = (if k < length ns then ns[k := f (ns ! k)] else ns)"
| "map_at (k # j # p) f ns =
     (if k < length ns then ns[k := under (map_at (j # p) f) (ns ! k)] else ns)"

text \<open>Once the node at \<open>q\<close> is removed, the later siblings of \<open>q\<close> (and everything below
  them) move one index down; \<open>shift q t\<close> is the new path of what was at \<open>t\<close>.\<close>

fun shift :: "path \<Rightarrow> path \<Rightarrow> path" where
  "shift [j] (k # rest) = (if j < k then (k - 1) # rest else k # rest)"
| "shift (j # q) (k # rest) = (if j = k then k # shift q rest else k # rest)"
| "shift q t = t"

text \<open>\<^verbatim>\<open>querySelector\<close> and \<^verbatim>\<open>getElementById\<close> return the first matching element in
  document order (pre-order, depth first).\<close>

fun bump :: "path \<Rightarrow> path" where
  "bump [] = []"
| "bump (k # p) = Suc k # p"

fun find_first :: "(einfo \<Rightarrow> bool) \<Rightarrow> node list \<Rightarrow> path option" where
  "find_first P [] = None"
| "find_first P (Text t # ns) = map_option bump (find_first P ns)"
| "find_first P (Elem i cs # ns) =
     (if P i then Some [0]
      else (case find_first P cs of
              Some p \<Rightarrow> Some (0 # p)
            | None \<Rightarrow> map_option bump (find_first P ns)))"

fun count_matches :: "(einfo \<Rightarrow> bool) \<Rightarrow> node list \<Rightarrow> nat" where
  "count_matches P [] = 0"
| "count_matches P (Text t # ns) = count_matches P ns"
| "count_matches P (Elem i cs # ns) =
     (if P i then 1 else 0) + count_matches P cs + count_matches P ns"

text \<open>\<^verbatim>\<open>document.querySelector(sel)\<close> searches the whole document,
  \<^verbatim>\<open>el.querySelector(sel)\<close> the proper descendants of \<^verbatim>\<open>el\<close>.\<close>

definition querySelector :: "(einfo \<Rightarrow> bool) \<Rightarrow> node list \<Rightarrow> path option" where
  "querySelector sel d = find_first sel d"

definition querySelector_in :: "(einfo \<Rightarrow> bool) \<Rightarrow> node list \<Rightarrow> path \<Rightarrow> path option" where
  "querySelector_in sel d el = map_option (\<lambda>r. el @ r) (find_first sel (kids_at d el))"

definition parentElement :: "path \<Rightarrow> path" where
  "parentElement p = (if length p \<ge> 2 then butlast p else [])"

definition next_pos :: "path \<Rightarrow> path" where
  "next_pos p = butlast p @ [Suc (last p)]"

definition nextSibling :: "node list \<Rightarrow> path \<Rightarrow> path option" where
  "nextSibling d p = (if node_at d (next_pos p) = None then None else Some (next_pos p))"

text \<open>\<^verbatim>\<open>container.children[children.indexOf(t) + 1] || null\<close>, for a child \<open>t\<close> of the
  container: \<^verbatim>\<open>children\<close> holds the element children only, so this is the first element
  after \<open>t\<close> among the container's child nodes.\<close>

definition nextElementChild :: "node list \<Rightarrow> path \<Rightarrow> path option" where
  "nextElementChild d t =
     map_option (\<lambda>u. butlast t @ [u])
       (List.find (\<lambda>u. is_elem (kids_at d (butlast t) ! u))
          [Suc (last t) ..< length (kids_at d (butlast t))])"

text \<open>\<^verbatim>\<open>document.body\<close>: the first \<^verbatim>\<open>body\<close> or \<^verbatim>\<open>frameset\<close> child of the \<^verbatim>\<open>html\<close> root
  element, \<^verbatim>\<open>null\<close> when there is none.\<close>

fun first_child :: "(einfo \<Rightarrow> bool) \<Rightarrow> node list \<Rightarrow> nat option" where
  "first_child P [] = None"
| "first_child P (Text t # ns) = map_option Suc (first_child P ns)"
| "first_child P (Elem i cs # ns) = (if P i then Some 0 else map_option Suc (first_child P ns))"

definition body :: "node list \<Rightarrow> path option" where
  "body d =
     (case first_child (\<lambda>i. True) d of
        None \<Rightarrow> None
      | Some r \<Rightarrow>
          (case d ! r of
             Elem i cs \<Rightarrow>
               if tag i = ''html''
               then map_option (\<lambda>b. [r, b])
                      (first_child (\<lambda>i. tag i = ''body'' \<or> tag i = ''frameset'') cs)
               else None
           | Text t \<Rightarrow> None))"

text \<open>
  \<^verbatim>\<open>parent.insertBefore(node, ref)\<close> raises a \<^verbatim>\<open>DOMException\<close> (here \<open>None\<close>) when
  \<^verbatim>\<open>parent\<close> cannot hold children, when \<^verbatim>\<open>ref\<close> is not \<^verbatim>\<open>null\<close> and not a child of
  \<^verbatim>\<open>parent\<close>, or when \<^verbatim>\<open>node\<close> is \<^verbatim>\<open>parent\<close> or one of its ancestors; it raises a
  \<^verbatim>\<open>TypeError\<close> when \<^verbatim>\<open>parent\<close> is \<^verbatim>\<open>null\<close>. Otherwise the node is taken out of its old
  place, if it has one, and put before \<^verbatim>\<open>ref\<close> (at the end for \<^verbatim>\<open>null\<close>). The result also
  gives the path at which the node ends up.
\<close>

definition ref_pos :: "node list \<Rightarrow> path \<Rightarrow> path option \<Rightarrow> path option" where
  "ref_pos d parent ref =
     (if parent \<noteq> [] \<and> elem_at d parent then
        (case ref of
           None \<Rightarrow> Some (parent @ [length (kids_at d parent)])
         | Some r \<Rightarrow>
             if r \<noteq> [] \<and> butlast r = parent \<and> node_at d r \<noteq> None then Some r else None)
      else None)"

definition insertBefore_new ::
  "path \<Rightarrow> node \<Rightarrow> path option \<Rightarrow> node list \<Rightarrow> (node list \<times> path) option" where
  "insertBefore_new parent n ref d =
     (case ref_pos d parent ref of
        None \<Rightarrow> None
      | Some pos \<Rightarrow> Some (insert_at pos n d, pos))"

definition insertBefore_move ::
  "path \<Rightarrow> path \<Rightarrow> path option \<Rightarrow> node list \<Rightarrow> (node list \<times> path) option" where
  "insertBefore_move parent q ref d =
     (case (ref_pos d parent ref, node_at d q) of
        (Some pos, Some n) \<Rightarrow>
          if prefix q parent then None
          else
            (let pos' = shift q (if pos = q then next_pos q else pos)
             in Some (insert_at pos' n (remove_at q d), pos'))
      | _ \<Rightarrow> None)"


section \<open>The content script\<close>

subsection \<open>Constants, selectors and the script's state\<close>

definition ICON_ID :: string where
  "ICON_ID = ''local-unifi-drive-icon''"

definition DEFAULT_LINK :: string where
  "DEFAULT_LINK = ''https://example.com''"

definition is_icon :: "einfo \<Rightarrow> bool" where
  "is_icon i = (ident i = ICON_ID)"

text \<open>The three selectors the script queries:
  \<^verbatim>\<open>div.unifi-portal-1vz64y0.evzy7n80\<close>, \<^verbatim>\<open>a[data-testid="applink-protect"]\<close> and
  \<^verbatim>\<open>a[data-testid="applink-network"]\<close>.\<close>

definition is_container :: "einfo \<Rightarrow> bool" where
  "is_container i =
     (tag i = ''div'' \<and> ''unifi-portal-1vz64y0'' \<in> set (classes i) \<and> ''evzy7n80'' \<in> set (classes i))"

definition is_protect :: "einfo \<Rightarrow> bool" where
  "is_protect i = (tag i = ''a'' \<and> testid i = ''applink-protect'')"

definition is_network :: "einfo \<Rightarrow> bool" where
  "is_network i = (tag i = ''a'' \<and> testid i = ''applink-network'')"

text \<open>JavaScript's \<^verbatim>\<open>a || b\<close> on strings: the empty string and \<^verbatim>\<open>undefined\<close> are falsy.\<close>

definition or_str :: "string \<Rightarrow> string \<Rightarrow> string" where
  "or_str a b = (if a = [] then b else a)"

definition or_link :: "string option \<Rightarrow> string \<Rightarrow> string" where
  "or_link a b = (case a of None \<Rightarrow> b | Some v \<Rightarrow> or_str v b)"

text \<open>
  The state the script reads and writes: the document; \<^verbatim>\<open>createIcon._last\<close> (0 while
  unset, which is also how the code reads it: \<^verbatim>\<open>createIcon._last || 0\<close>);
  \<^verbatim>\<open>_currentDriveLink\<close>; what the extension runtime offers (\<^verbatim>\<open>chrome.runtime.id\<close> with
  \<^verbatim>\<open>getURL\<close>, whether \<^verbatim>\<open>getURL\<close> throws, the extension's base URL, and whether
  \<^verbatim>\<open>chrome.storage.sync.get\<close> exists, throws or works); the two keys in
  \<^verbatim>\<open>chrome.storage.sync\<close>; the reads of \<^verbatim>\<open>chrome.storage.sync.get\<close> that are in flight,
  each with the \<^verbatim>\<open>items\<close> its callback will be given (\<^verbatim>\<open>driveLink\<close> and
  \<^verbatim>\<open>delayedCreate\<close>, read from the store when \<^verbatim>\<open>get\<close> is called, in the order of the
  calls); the delayed creations \<^verbatim>\<open>loadAndCreate\<close> has scheduled with
  \<^verbatim>\<open>setTimeout\<close> (due time in milliseconds and captured link); the calls of
  \<^verbatim>\<open>window.open\<close> (URL and target) and of \<^verbatim>\<open>preventDefault\<close> made so far. Times are
  \<^verbatim>\<open>Date.now()\<close> readings in milliseconds; the delay is a whole number of seconds.
\<close>

datatype storage_api = StorageMissing | StorageThrows | StorageOk

record state =
  doc :: "node list"
  last_ms :: int
  currentDriveLink :: string
  runtimeHasId :: bool
  getURL_throws :: bool
  ext_base :: string
  storage :: storage_api
  stored_link :: "string option"
  stored_delay :: "int option"
  pending :: "(string \<times> int) list"
  timers :: "(int \<times> string) list"
  opened :: "(string \<times> string) list"
  prevented :: nat

text \<open>A call either returns or throws; both carry the state reached.\<close>

datatype 'a outcome = Returned 'a | Threw 'a

fun state_of :: "'a outcome \<Rightarrow> 'a" where
  "state_of (Returned s) = s"
| "state_of (Threw s) = s"

fun threw :: "'a outcome \<Rightarrow> bool" where
  "threw (Returned s) = False"
| "threw (Threw s) = True"

subsection \<open>Building the icon\<close>

text \<open>\<^verbatim>\<open>createInlineSvgDataUrl()\<close>: the fixed prefix followed by
  \<^verbatim>\<open>encodeURIComponent\<close> of the fixed SVG text.\<close>

definition createInlineSvgDataUrl :: string where
  "createInlineSvgDataUrl = ''data:image/svg+xml;charset=utf-8,%3Csvg%20xmlns%3D'http%3A%2F%2Fwww.w3.org%2F2000%2Fsvg'%20width%3D'28'%20height%3D'28'%20viewBox%3D'0%200%2024%2024'%3E%3Cpath%20fill%3D'currentColor'%20d%3D'M12%202C7.03%202%203%203.79%203%206v12c0%202.21%204.03%204%209%204s9-1.79%209-4V6c0-2.21-4.03-4-9-4zm0%202c3.87%200%207%201.12%207%202s-3.13%202-7%202-7-1.12-7-2%203.13-2%207-2zm0%2014c-3.87%200-7-1.12-7-2V10c1.3%201.07%204.2%201.71%207%201.71s5.7-.64%207-1.71v6c0%20.88-3.13%202-7%202z'%2F%3E%3C%2Fsvg%3E''"

definition plain :: einfo where
  "plain = \<lparr>tag = [], ident = [], classes = [], testid = [], svg_ns = False, src = [],
            click_link = None\<rparr>"

definition img_node :: "state \<Rightarrow> node" where
  "img_node s =
     Elem (plain\<lparr>tag := ''img'', classes := [''local-unifi-drive-img''],
                 src := ext_base s @ ''icons/DriveDark.png''\<rparr>) []"

definition makeInlineSvg :: node where
  "makeInlineSvg =
     Elem (plain\<lparr>tag := ''svg'', classes := [''local-unifi-drive-svg''], svg_ns := True\<rparr>)
       [Elem (plain\<lparr>tag := ''path'', svg_ns := True\<rparr>) []]"

text \<open>\<^verbatim>\<open>childEl = img || svgEl\<close>: the image when the runtime has an id and \<^verbatim>\<open>getURL\<close>
  does not throw, the inline SVG otherwise.\<close>

definition childEl :: "state \<Rightarrow> node" where
  "childEl s = (if runtimeHasId s \<and> \<not> getURL_throws s then img_node s else makeInlineSvg)"

definition wrapper :: "string option \<Rightarrow> state \<Rightarrow> node" where
  "wrapper link s =
     Elem (plain\<lparr>tag := ''a'', ident := ICON_ID, classes := [''local-unifi-drive-wrapper''],
                 click_link := Some link\<rparr>) [childEl s]"

text \<open>\<^verbatim>\<open>for (const c of Array.from(el.classList)) if (c) node.classList.add(c)\<close>;
  \<^verbatim>\<open>classList.add\<close> leaves a token that is already there alone.\<close>

definition add_classes :: "string list \<Rightarrow> string list \<Rightarrow> string list" where
  "add_classes cls own =
     foldl (\<lambda>acc c. if c = [] \<or> c \<in> set acc then acc else acc @ [c]) own cls"

fun copy_classes :: "string list \<Rightarrow> node \<Rightarrow> node" where
  "copy_classes cls (Elem i cs) = Elem (i\<lparr>classes := add_classes cls (classes i)\<rparr>) cs"
| "copy_classes cls (Text t) = Text t"

subsection \<open>removeIcon\<close>

text \<open>\<^verbatim>\<open>const el = document.getElementById(ICON_ID);
  if (el && el.parentNode) el.parentNode.removeChild(el);\<close>
  An element found in the document always has a parent node.\<close>

definition removeIcon_doc :: "node list \<Rightarrow> node list" where
  "removeIcon_doc d = (case find_first is_icon d of None \<Rightarrow> d | Some q \<Rightarrow> remove_at q d)"

definition removeIcon :: "state \<Rightarrow> state" where
  "removeIcon s = s\<lparr>doc := removeIcon_doc (doc s)\<rparr>"

subsection \<open>repairExisting\<close>

text \<open>\<^verbatim>\<open>findDirectChildContaining(anchor, containerEl)\<close>: the first element child of
  the container that contains the anchor (\<^verbatim>\<open>contains\<close> is reflexive); \<^verbatim>\<open>null\<close> when an
  argument is \<^verbatim>\<open>null\<close> or no child does.\<close>

definition findDirectChildContaining :: "node list \<Rightarrow> path \<Rightarrow> path \<Rightarrow> path option" where
  "findDirectChildContaining d anchor containerEl =
     (if anchor = [] \<or> containerEl = [] then None
      else map_option (\<lambda>k. containerEl @ [k])
             (List.find (\<lambda>k. is_elem (kids_at d containerEl ! k) \<and> prefix (containerEl @ [k]) anchor)
                [0 ..< length (kids_at d containerEl)]))"

text \<open>\<^verbatim>\<open>topChild.parentElement || container\<close>.\<close>

definition or_parent :: "path \<Rightarrow> path \<Rightarrow> path" where
  "or_parent t c = (if parentElement t = [] then c else parentElement t)"

text \<open>\<^verbatim>\<open>src.indexOf(pat) !== -1\<close>.\<close>

fun contains_sub :: "string \<Rightarrow> string \<Rightarrow> bool" where
  "contains_sub pat [] = (pat = [])"
| "contains_sub pat (c # cs) = (prefix pat (c # cs) \<or> contains_sub pat cs)"

text \<open>
  The last part of \<^verbatim>\<open>repairExisting\<close> works inside the icon: the host's classes are added
  to it, and its first \<^verbatim>\<open>img\<close> or \<^verbatim>\<open>svg\<close> descendant is cleaned. An image whose \<^verbatim>\<open>src\<close>
  holds an encoded \<^verbatim>\<open><rect\<close> gets the transparent data URL and the fallback class; an SVG
  element loses its first \<^verbatim>\<open>rect\<close> descendant.
\<close>

fun fix_img :: "node \<Rightarrow> node" where
  "fix_img (Elem ci cks) =
     copy_classes [''local-unifi-drive-svg-fallback''] (Elem (ci\<lparr>src := createInlineSvgDataUrl\<rparr>) cks)"
| "fix_img (Text t) = Text t"

definition scrub :: "node list \<Rightarrow> node list" where
  "scrub cs =
     (case find_first (\<lambda>i. tag i = ''img'' \<or> tag i = ''svg'') cs of
        None \<Rightarrow> cs
      | Some cp \<Rightarrow>
          (case node_at cs cp of
             Some (Elem ci cks) \<Rightarrow>
               if tag ci = ''img'' then
                 (if src ci \<noteq> [] \<and> contains_sub ''%3Crect'' (src ci) \<and> createInlineSvgDataUrl \<noteq> []
                  then map_at cp fix_img cs
                  else cs)
               else if svg_ns ci then
                 (case find_first (\<lambda>i. tag i = ''rect'') cks of
                    None \<Rightarrow> cs
                  | Some rp \<Rightarrow> remove_at (cp @ rp) cs)
               else cs
           | _ \<Rightarrow> cs))"

definition restyle :: "string list \<Rightarrow> node \<Rightarrow> node" where
  "restyle hostcls n = under scrub (copy_classes hostcls n)"

text \<open>
  Lines 339 to 357: the icon is moved to just after the protect anchor; should that
  throw, to just after the container's child that holds the anchor; should that throw
  too, to the end of the container. \<open>None\<close> is an exception leaving the whole sequence.
\<close>

definition move_into_header ::
  "node list \<Rightarrow> path \<Rightarrow> path \<Rightarrow> path \<Rightarrow> (node list \<times> path) option" where
  "move_into_header d existing sc a =
     (case insertBefore_move (parentElement a) existing (nextSibling d a) d of
        Some r \<Rightarrow> Some r
      | None \<Rightarrow>
          (let topChild = (case findDirectChildContaining d a sc of Some t \<Rightarrow> t | None \<Rightarrow> a);
               attempt =
                 (if topChild \<noteq> [] \<and> butlast topChild = sc
                  then insertBefore_move sc existing (nextElementChild d topChild) d
                  else insertBefore_move (or_parent topChild sc) existing (nextSibling d topChild) d)
           in case attempt of
                Some r \<Rightarrow> Some r
              | None \<Rightarrow> insertBefore_move sc existing None d))"

text \<open>
  \<^verbatim>\<open>repairExisting\<close> returns at once without an icon or without the header container.
  Everything else sits in one \<^verbatim>\<open>try\<close>: an exception from the move skips the styling and
  is swallowed. The host whose classes are copied is the anchor's parent; a move changes
  no class list, so the classes can be read before it.
\<close>

definition repairExisting_doc :: "node list \<Rightarrow> node list" where
  "repairExisting_doc d =
     (case find_first is_icon d of
        None \<Rightarrow> d
      | Some existing \<Rightarrow>
          (case querySelector is_container d of
             None \<Rightarrow> d
           | Some sc \<Rightarrow>
               (let protectAnchor = querySelector_in is_protect d sc;
                    moved =
                      (case protectAnchor of
                         Some a \<Rightarrow>
                           if parentElement a \<noteq> [] then move_into_header d existing sc a
                           else insertBefore_move sc existing None d
                       | None \<Rightarrow> insertBefore_move sc existing None d);
                    hostcls =
                      (case protectAnchor of
                         Some a \<Rightarrow> classes_at d (parentElement a)
                       | None \<Rightarrow> [])
                in case moved of
                     None \<Rightarrow> d
                   | Some (d', q') \<Rightarrow> map_at q' (restyle hostcls) d')))"

definition repairExisting :: "state \<Rightarrow> state" where
  "repairExisting s = s\<lparr>doc := repairExisting_doc (doc s)\<rparr>"


subsection \<open>createIcon\<close>

text \<open>The debounce of lines 40 to 41:
  \<^verbatim>\<open>if (createIcon._last && now - createIcon._last < 500) return;\<close>\<close>

definition debounced :: "int \<Rightarrow> state \<Rightarrow> bool" where
  "debounced now s = (last_ms s \<noteq> 0 \<and> now - last_ms s < 500)"

text \<open>
  Lines 164 to 165, the loop \<^verbatim>\<open>while (anc && !anc.contains(p)) anc = anc.parentElement\<close>:
  an element contains another when its path is a prefix of the other's.
\<close>

function anc_loop :: "path \<Rightarrow> path \<Rightarrow> path" where
  "anc_loop anc p =
     (if anc \<noteq> [] \<and> \<not> prefix anc p then anc_loop (parentElement anc) p else anc)"
  by pat_completeness auto
termination
  by (relation "measure (\<lambda>(anc, p). length anc)") (auto simp: parentElement_def)

declare anc_loop.simps [simp del]

text \<open>Lines 158 to 167: the explicit header container, else the lowest ancestor of the
  network anchor that contains the protect anchor, else \<^verbatim>\<open>document.body\<close>; \<open>None\<close> is
  \<^verbatim>\<open>null\<close>.\<close>

definition resolve_container :: "node list \<Rightarrow> path option" where
  "resolve_container d =
     (case querySelector is_container d of
        Some sc \<Rightarrow> Some sc
      | None \<Rightarrow>
          (case (querySelector is_network d, querySelector is_protect d) of
             (Some n, Some p) \<Rightarrow>
               (let anc = anc_loop (parentElement n) p
                in if anc \<noteq> [] then Some anc else body d)
           | _ \<Rightarrow> body d))"

text \<open>
  Lines 205 to 218 and 224 to 237, the insertion after the container's child that holds
  the anchor. The classes of that child are copied first; the wrapper then goes before the
  child's next element sibling when the child is one of \<^verbatim>\<open>container.children\<close>, else after
  the child in the child's own parent. A failure is retried with
  \<^verbatim>\<open>insertAdjacentElement('afterend', wrapper)\<close> and then with \<^verbatim>\<open>insertBefore\<close> again;
  \<open>None\<close> is the exception of the last retry.
\<close>

definition place_after_host :: "node list \<Rightarrow> path \<Rightarrow> path \<Rightarrow> node \<Rightarrow> node list option" where
  "place_after_host d anchor container w =
     (let topChild =
            (case findDirectChildContaining d anchor container of Some t \<Rightarrow> t | None \<Rightarrow> anchor);
          w' = copy_classes (classes_at d topChild) w;
          attempt =
            (if topChild \<noteq> [] \<and> butlast topChild = container
             then insertBefore_new container w' (nextElementChild d topChild) d
             else insertBefore_new (or_parent topChild container) w' (nextSibling d topChild) d)
      in case attempt of
           Some (d', pos) \<Rightarrow> Some d'
         | None \<Rightarrow>
             (case insertBefore_new (butlast topChild) w' (nextSibling d topChild) d of
                Some (d', pos) \<Rightarrow> Some d'
              | None \<Rightarrow>
                  map_option fst
                    (insertBefore_new (or_parent topChild container) w' (nextSibling d topChild) d)))"

text \<open>
  Lines 181 to 282, the body of the outer \<^verbatim>\<open>try\<close>; \<open>None\<close> is an exception reaching the
  outer \<^verbatim>\<open>catch\<close>. With a protect anchor the wrapper goes into the anchor's parent, before
  the anchor's next sibling, and then takes the parent's classes; with only a network
  anchor it goes after the anchor's host; with neither it is appended to the container and
  \<^verbatim>\<open>repairExisting\<close> runs. The verification pass of lines 250 to 276 is guarded by
  \<^verbatim>\<open>protectAnchor\<close>, which is \<^verbatim>\<open>null\<close> wherever that pass is reached, so it does nothing.
\<close>

definition try_place :: "node list \<Rightarrow> path \<Rightarrow> node \<Rightarrow> node list option" where
  "try_place d container w =
     (case querySelector_in is_protect d container of
        Some protectAnchor \<Rightarrow>
          (let parent = or_parent protectAnchor container
           in case insertBefore_new parent w (nextSibling d protectAnchor) d of
                Some (d', pos) \<Rightarrow> Some (map_at pos (copy_classes (classes_at d' parent)) d')
              | None \<Rightarrow> place_after_host d protectAnchor container w)
      | None \<Rightarrow>
          (case querySelector_in is_network d container of
             Some networkAnchor \<Rightarrow> place_after_host d networkAnchor container w
           | None \<Rightarrow>
               (case insertBefore_new container w None d of
                  Some (d', pos) \<Rightarrow> Some (repairExisting_doc d')
                | None \<Rightarrow> None)))"

text \<open>
  The wrapper as the outer \<^verbatim>\<open>catch\<close> finds it: an exception can only come out of the
  insertion after a host (the append of line 242 aside), and that path has copied the
  host's classes onto the wrapper before it tried to insert.
\<close>

definition failed_wrapper :: "node list \<Rightarrow> path \<Rightarrow> node \<Rightarrow> node" where
  "failed_wrapper d container w =
     (case (case querySelector_in is_protect d container of
              Some protectAnchor \<Rightarrow> Some protectAnchor
            | None \<Rightarrow> querySelector_in is_network d container) of
        Some anchor \<Rightarrow>
          copy_classes
            (classes_at d
               (case findDirectChildContaining d anchor container of
                  Some t \<Rightarrow> t
                | None \<Rightarrow> anchor)) w
      | None \<Rightarrow> w)"

text \<open>Lines 283 to 286, the last resort:
  \<^verbatim>\<open>try { document.body.appendChild(wrapper); } catch (e2) {}\<close>\<close>

definition last_resort :: "node list \<Rightarrow> node \<Rightarrow> node list" where
  "last_resort d w =
     (case body d of
        None \<Rightarrow> d
      | Some b \<Rightarrow> (case insertBefore_new b w None d of Some (d', pos) \<Rightarrow> d' | None \<Rightarrow> d))"

text \<open>
  \<^verbatim>\<open>createIcon(link)\<close> at clock reading \<open>now\<close>. A debounced call returns at once. Otherwise
  \<^verbatim>\<open>_last\<close> is set, the old icon removed, the wrapper built and the container resolved.
  Line 178 calls \<^verbatim>\<open>container.querySelector\<close> outside every \<^verbatim>\<open>try\<close>: with a \<^verbatim>\<open>null\<close>
  container it throws a \<^verbatim>\<open>TypeError\<close>.
\<close>

definition createIcon :: "int \<Rightarrow> string option \<Rightarrow> state \<Rightarrow> state outcome" where
  "createIcon now link s =
     (if debounced now s then Returned s
      else
        (let d1 = removeIcon_doc (doc s);
             w = wrapper link s
         in case resolve_container d1 of
              None \<Rightarrow> Threw (s\<lparr>last_ms := now, doc := d1\<rparr>)
            | Some container \<Rightarrow>
                Returned (s\<lparr>last_ms := now,
                            doc := (case try_place d1 container w of
                                      Some d' \<Rightarrow> d'
                                    | None \<Rightarrow>
                                        last_resort d1 (failed_wrapper d1 container w))\<rparr>)))"

subsection \<open>Settings, the watcher and the click\<close>

text \<open>
  \<^verbatim>\<open>apply(link, delayedSeconds)\<close> inside \<^verbatim>\<open>loadAndCreate\<close>: the icon is created (a throw is
  answered by a second call with the default link), and a positive delay schedules one
  more \<^verbatim>\<open>createIcon(link || DEFAULT_LINK)\<close>.
\<close>

definition apply_settings :: "int \<Rightarrow> string \<Rightarrow> int \<Rightarrow> state \<Rightarrow> state outcome" where
  "apply_settings now link delayedSeconds s =
     (case (case createIcon now (Some (or_str link DEFAULT_LINK)) s of
              Returned s' \<Rightarrow> Returned s'
            | Threw s' \<Rightarrow> createIcon now (Some DEFAULT_LINK) s') of
        Threw s' \<Rightarrow> Threw s'
      | Returned s' \<Rightarrow>
          Returned (if delayedSeconds > 0
                    then s'\<lparr>timers := timers s' @ [(now + delayedSeconds * 1000, or_str link DEFAULT_LINK)]\<rparr>
                    else s'))"

text \<open>
  \<^verbatim>\<open>loadAndCreate\<close> (lines 294 to 323), called at clock reading \<open>now\<close>. With the storage
  API at hand it only calls \<^verbatim>\<open>chrome.storage.sync.get({ driveLink: '', delayedCreate: 5 }, ...)\<close>,
  which fills in the defaults for absent keys and answers later: the read joins the reads
  in flight and nothing else happens in this call. Without the API, or when \<^verbatim>\<open>get\<close>
  throws, the defaults are applied at once, within the call.
\<close>

definition loadAndCreate :: "int \<Rightarrow> state \<Rightarrow> state outcome" where
  "loadAndCreate now s =
     (case storage s of
        StorageOk \<Rightarrow>
          (let driveLink = (case stored_link s of None \<Rightarrow> [] | Some v \<Rightarrow> v);
               delayedCreate = (case stored_delay s of None \<Rightarrow> 5 | Some v \<Rightarrow> v)
           in Returned (s\<lparr>pending := pending s @ [(driveLink, delayedCreate)]\<rparr>))
      | _ \<Rightarrow> apply_settings now DEFAULT_LINK 5 (s\<lparr>currentDriveLink := DEFAULT_LINK\<rparr>))"

text \<open>
  The callback given to \<^verbatim>\<open>chrome.storage.sync.get\<close> (lines 315 to 318), run at clock
  reading \<open>now\<close> with the \<^verbatim>\<open>items\<close> of the oldest read in flight:
  \<^verbatim>\<open>_currentDriveLink = items.driveLink || DEFAULT_LINK\<close>, then
  \<^verbatim>\<open>apply(items.driveLink || DEFAULT_LINK, Number(items.delayedCreate || 0))\<close>. With no read
  in flight there is no callback to run.
\<close>

definition storage_callback :: "int \<Rightarrow> state \<Rightarrow> state outcome" where
  "storage_callback now s =
     (case pending s of
        [] \<Rightarrow> Returned s
      | (driveLink, delayedCreate) # rest \<Rightarrow>
          apply_settings now (or_str driveLink DEFAULT_LINK) delayedCreate
            (s\<lparr>pending := rest, currentDriveLink := or_str driveLink DEFAULT_LINK\<rparr>))"

text \<open>
  The mutation observer's callback (lines 440 to 447), with \<^verbatim>\<open>Date.now()\<close> reading \<open>now\<close>.
  \<^verbatim>\<open>document.body.contains\<close> on a \<^verbatim>\<open>null\<close> body throws.
\<close>

definition observer_callback :: "int \<Rightarrow> state \<Rightarrow> state outcome" where
  "observer_callback now s =
     (case find_first is_icon (doc s) of
        None \<Rightarrow> if now - last_ms s < 1000 then Returned s else loadAndCreate now s
      | Some icon \<Rightarrow>
          (case body (doc s) of
             None \<Rightarrow> Threw s
           | Some b \<Rightarrow>
               if \<not> prefix b icon
               then (if now - last_ms s < 1000 then Returned s else loadAndCreate now s)
               else Returned s))"

text \<open>\<^verbatim>\<open>checkAndCreate\<close> of the persistent watcher (lines 466 to 477), run by the
  500 ms poll and after navigation events; the flag is its result.\<close>

definition checkAndCreate :: "int \<Rightarrow> state \<Rightarrow> state \<times> bool" where
  "checkAndCreate now s =
     (if querySelector is_protect (doc s) \<noteq> None \<and> find_first is_icon (doc s) = None
      then (case createIcon now None s of
              Returned s' \<Rightarrow> (s', True)
            | Threw s' \<Rightarrow> (s', False))
      else (s, False))"

text \<open>The click listener of line 115, on the node at a path:
  \<^verbatim>\<open>e.preventDefault(); window.open((link || _currentDriveLink || DEFAULT_LINK), '_blank')\<close>.
  An element without the listener does nothing of the script's.\<close>

definition listener :: "path \<Rightarrow> state \<Rightarrow> state" where
  "listener q s =
     (case node_at (doc s) q of
        Some (Elem i cs) \<Rightarrow>
          (case click_link i of
             Some link \<Rightarrow>
               s\<lparr>prevented := Suc (prevented s),
                  opened := opened s @ [(or_link link (or_str (currentDriveLink s) DEFAULT_LINK), ''_blank'')]\<rparr>
           | None \<Rightarrow> s)
      | _ \<Rightarrow> s)"

text \<open>
  A click on the node at a path. The event is dispatched to the node and bubbles: the
  listeners run on the node itself, then on its parent, and so on up to the root element.
  (\<^verbatim>\<open>rev (tl (prefixes q))\<close> lists \<open>q\<close> and its ancestors, innermost first.) A path that
  leads to no node is no click.
\<close>

definition bubble :: "path \<Rightarrow> path list" where
  "bubble q = rev (tl (prefixes q))"

definition click :: "path \<Rightarrow> state \<Rightarrow> state" where
  "click q s =
     (case node_at (doc s) q of
        None \<Rightarrow> s
      | Some n \<Rightarrow> foldl (\<lambda>s' p. listener p s') s (bubble q))"

text \<open>A scheduled delayed creation that has come due (lines 304 to 307); its exception
  is caught.\<close>

definition fire_timer :: "int \<Rightarrow> nat \<Rightarrow> state \<Rightarrow> state" where
  "fire_timer now k s =
     (if k < length (timers s) \<and> fst (timers s ! k) \<le> now
      then state_of (createIcon now (Some (snd (timers s ! k)))
                       (s\<lparr>timers := take k (timers s) @ drop (Suc k) (timers s)\<rparr>))
      else s)"

subsection \<open>The options page\<close>

text \<open>\<^verbatim>\<open>String.prototype.trim\<close> on the characters a \<^typ>\<open>string\<close> can hold: tab, line feed,
  vertical tab, form feed, carriage return, space and no-break space are white space.\<close>

definition is_ws :: "char \<Rightarrow> bool" where
  "is_ws c = (of_char c \<in> {9, 10, 11, 12, 13, 32, 160 :: nat})"

definition trim :: "string \<Rightarrow> string" where
  "trim v = rev (dropWhile is_ws (rev (dropWhile is_ws v)))"

text \<open>The save button (lines 14 to 21 of the options script) with the text of the link
  field and the number in the delay field (\<open>None\<close> when it is not a number):
  \<^verbatim>\<open>chrome.storage.sync.set({ driveLink: val, delayedCreate: delayVal })\<close>.\<close>

definition save_options :: "string \<Rightarrow> int option \<Rightarrow> state \<Rightarrow> state" where
  "save_options text delay s =
     s\<lparr>stored_link := Some (trim text),
        stored_delay := Some (case delay of None \<Rightarrow> 0 | Some v \<Rightarrow> v)\<rparr>"

text \<open>\<^verbatim>\<open>load\<close> of the options page: the text put into the link field.\<close>

definition options_load :: "state \<Rightarrow> string" where
  "options_load s = or_str (case stored_link s of None \<Rightarrow> [] | Some v \<Rightarrow> v) []"

subsection \<open>Events\<close>

text \<open>
  What can invoke the script after start-up: the debug bridge (\<^verbatim>\<open>create\<close> with an optional
  link, \<^verbatim>\<open>remove\<close>, \<^verbatim>\<open>repair\<close>), the mutation observer, the poll and the navigation
  re-check, the one-shot 5 s creation of \<^verbatim>\<open>start\<close> (\<^verbatim>\<open>createIcon()\<close> without a link), a
  delayed creation scheduled by \<^verbatim>\<open>loadAndCreate\<close>, a storage change (which runs
  \<^verbatim>\<open>loadAndCreate\<close>), the answer to the oldest storage read in flight, a save on the
  options page and a click on a node. An exception ends the handler; the state reached
  stays.
\<close>

datatype event =
    Create int "string option"
  | Remove
  | Repair
  | Observer int
  | Poll int
  | DelayedCreate int
  | Timer int nat
  | StorageChanged int
  | StorageCallback int
  | Save string "int option"
  | Click path

fun step :: "state \<Rightarrow> event \<Rightarrow> state" where
  "step s (Create now link) = state_of (createIcon now link s)"
| "step s Remove = removeIcon s"
| "step s Repair = repairExisting s"
| "step s (Observer now) = state_of (observer_callback now s)"
| "step s (Poll now) = fst (checkAndCreate now s)"
| "step s (DelayedCreate now) = state_of (createIcon now None s)"
| "step s (Timer now k) = fire_timer now k s"
| "step s (StorageChanged now) = state_of (loadAndCreate now s)"
| "step s (StorageCallback now) = state_of (storage_callback now s)"
| "step s (Save text delay) = save_options text delay s"
| "step s (Click q) = click q s"

definition run :: "state \<Rightarrow> event list \<Rightarrow> state" where
  "run s es = foldl step s es"


section \<open>Notions used in the statements\<close>

text \<open>The singleton property: the document holds at most one element with the icon's id.\<close>

definition at_most_one_icon :: "node list \<Rightarrow> bool" where
  "at_most_one_icon d = (count_matches is_icon d \<le> 1)"

text \<open>The document \<^verbatim>\<open>createIcon\<close> places the new icon into: the current one without the
  previous icon (line 45). And the document a call leaves behind.\<close>

definition cleared :: "state \<Rightarrow> node list" where
  "cleared s = removeIcon_doc (doc s)"

definition placed :: "int \<Rightarrow> string option \<Rightarrow> state \<Rightarrow> node list" where
  "placed now link s = doc (state_of (createIcon now link s))"

text \<open>What the observer callback tests, \<^verbatim>\<open>!icon || !document.body.contains(icon)\<close>: no
  element carries the icon's id, or the one that does lies outside the body. (With an icon
  and no body at all the test itself throws; that is neither of the two.)\<close>

definition icon_missing_or_detached :: "node list \<Rightarrow> bool" where
  "icon_missing_or_detached d =
     (case find_first is_icon d of
        None \<Rightarrow> True
      | Some icon \<Rightarrow> (case body d of None \<Rightarrow> False | Some b \<Rightarrow> \<not> prefix b icon))"

text \<open>
  The visual host of an anchor: the child of the container that holds the anchor (or is
  it). And the place \<^verbatim>\<open>createIcon\<close> gives the icon when it goes after a host: before the
  host's next element sibling, or at the end of the container when there is none.
\<close>

definition host_of :: "path \<Rightarrow> path \<Rightarrow> path" where
  "host_of c anchor = take (Suc (length c)) anchor"

definition icon_pos :: "node list \<Rightarrow> path \<Rightarrow> path \<Rightarrow> path" where
  "icon_pos d c anchor =
     (case nextElementChild d (host_of c anchor) of
        Some u \<Rightarrow> u
      | None \<Rightarrow> c @ [length (kids_at d c)])"

text \<open>A node, or the element at a path, is an icon whose click listener was installed by
  \<^verbatim>\<open>createIcon(link)\<close>.\<close>

fun icon_for :: "string option \<Rightarrow> node \<Rightarrow> bool" where
  "icon_for link (Elem i cs) = (is_icon i \<and> click_link i = Some link)"
| "icon_for link (Text t) = False"

definition icon_at :: "node list \<Rightarrow> path \<Rightarrow> string option \<Rightarrow> bool" where
  "icon_at d p link =
     (case node_at d p of
        Some (Elem i cs) \<Rightarrow> is_icon i \<and> click_link i = Some link
      | _ \<Rightarrow> False)"


definition configured_link :: "state \<Rightarrow> string" where
  "configured_link s = or_str (case stored_link s of None \<Rightarrow> [] | Some v \<Rightarrow> v) DEFAULT_LINK"



text \<open>The link captured by the listener of the icon (\<open>None\<close> without an icon or without a
  listener on it; \<open>Some None\<close> for a listener of \<^verbatim>\<open>createIcon()\<close>, called without a link).
  And a node whose first child is an element without the listener.\<close>

definition the_icon_link :: "node list \<Rightarrow> string option option" where
  "the_icon_link d =
     (case find_first is_icon d of
        None \<Rightarrow> None
      | Some q \<Rightarrow> (case node_at d q of Some (Elem i cs) \<Rightarrow> click_link i | _ \<Rightarrow> None))"

definition plain_child :: "node \<Rightarrow> bool" where
  "plain_child n = (case kids n of Elem ci cks # rest \<Rightarrow> click_link ci = None | _ \<Rightarrow> False)"

text \<open>
  The settings a \<^verbatim>\<open>loadAndCreate\<close> called in a state applies: with the storage API the
  stored link and delay (the default link in place of an absent or empty one, 5 seconds in
  place of an absent delay), without it the default link and 5 seconds. And the delayed
  creations it adds to those scheduled.
\<close>

definition loaded_link :: "state \<Rightarrow> string" where
  "loaded_link s = (if storage s = StorageOk then configured_link s else DEFAULT_LINK)"

definition loaded_delay :: "state \<Rightarrow> int" where
  "loaded_delay s =
     (if storage s = StorageOk then (case stored_delay s of None \<Rightarrow> 5 | Some v \<Rightarrow> v) else 5)"

definition scheduled :: "int \<Rightarrow> state \<Rightarrow> (int \<times> string) list" where
  "scheduled t s = (if loaded_delay s > 0 then [(t + loaded_delay s * 1000, loaded_link s)] else [])"

text \<open>
  A handler that may have called \<^verbatim>\<open>loadAndCreate\<close> in state \<open>s\<close>, followed, when the storage
  API is at hand, by the answer to the oldest storage read in flight at clock \<open>later\<close>,
  with nothing else run in between. Without the API there is no read to answer. And the
  clock reading at which the placement of a \<^verbatim>\<open>loadAndCreate\<close> called at \<open>now\<close> then runs.
\<close>

definition then_answered :: "int \<Rightarrow> state \<Rightarrow> state outcome \<Rightarrow> state" where
  "then_answered later s r =
     (case storage s of
        StorageOk \<Rightarrow> state_of (storage_callback later (state_of r))
      | _ \<Rightarrow> state_of r)"

definition placing_clock :: "int \<Rightarrow> int \<Rightarrow> state \<Rightarrow> int" where
  "placing_clock now later s = (if storage s = StorageOk then later else now)"

definition load_and_place :: "int \<Rightarrow> int \<Rightarrow> state \<Rightarrow> state" where
  "load_and_place now later s = then_answered later s (loadAndCreate now s)"

text \<open>All storage reads in flight answered, oldest first, at one clock reading.\<close>

fun answer_n :: "nat \<Rightarrow> int \<Rightarrow> state \<Rightarrow> state" where
  "answer_n 0 now s = s"
| "answer_n (Suc n) now s = answer_n n now (state_of (storage_callback now s))"

definition answer_all :: "int \<Rightarrow> state \<Rightarrow> state" where
  "answer_all now s = answer_n (length (pending s)) now s"

text \<open>A position at which a node can be inserted: every step but the last goes through an
  element, and the last index is at most the number of children there.\<close>

fun pos_ok :: "node list \<Rightarrow> path \<Rightarrow> bool" where
  "pos_ok d [] = False"
| "pos_ok d [k] = (k \<le> length d)"
| "pos_ok d (k # j # p) = (k < length d \<and> is_elem (d ! k) \<and> pos_ok (kids (d ! k)) (j # p))"

text \<open>The attributes of the element at a path; a path found behind \<open>m\<close> earlier siblings.\<close>

definition info_at :: "node list \<Rightarrow> path \<Rightarrow> einfo option" where
  "info_at d p = (case node_at d p of Some (Elem i cs) \<Rightarrow> Some i | _ \<Rightarrow> None)"

fun bump_by :: "nat \<Rightarrow> path \<Rightarrow> path" where
  "bump_by m [] = []"
| "bump_by m (k # p) = (m + k) # p"



section \<open>Example documents\<close>

text \<open>Small pages and a start state on which the theorems below are run: a page is an
  \<^verbatim>\<open>html\<close> root with a \<^verbatim>\<open>head\<close> and a \<^verbatim>\<open>body\<close>; the start state has the extension's
  runtime and storage at hand and nothing stored.\<close>

definition el :: "string \<Rightarrow> string list \<Rightarrow> string \<Rightarrow> node list \<Rightarrow> node" where
  "el t cls tid ks = Elem (plain\<lparr>tag := t, classes := cls, testid := tid\<rparr>) ks"

definition header :: "node list \<Rightarrow> node" where
  "header ks = el ''div'' [''unifi-portal-1vz64y0'', ''evzy7n80''] [] ks"

definition page :: "node list \<Rightarrow> node list" where
  "page bs = [el ''html'' [] [] [el ''head'' [] [] [], el ''body'' [] [] bs]]"

definition fresh_state :: "node list \<Rightarrow> state" where
  "fresh_state d =
     \<lparr>doc = d, last_ms = 0, currentDriveLink = DEFAULT_LINK, runtimeHasId = True,
      getURL_throws = False, ext_base = ''chrome-extension://id/'', storage = StorageOk,
      stored_link = None, stored_delay = None, pending = [], timers = [], opened = [],
      prevented = 0\<rparr>"

text \<open>The header with both anchors; the same state after one creation.\<close>

definition unifi_page :: "node list" where
  "unifi_page =
     page [header [el ''a'' [] ''applink-network'' [], Text '' '',
                   el ''a'' [] ''applink-protect'' [], Text '' '', el ''span'' [] [] []]]"

definition placed_once :: state where
  "placed_once = state_of (createIcon 1000 None (fresh_state unifi_page))"

text \<open>A document without a body; a page with an icon left on the body, before the header;
  a page whose network anchor lies outside the header container; one with a nested network
  anchor and text between the header's children; one without header and anchors.\<close>

definition bodyless_page :: "node list" where
  "bodyless_page = [el ''html'' [] [] [el ''head'' [] [] []]]"

definition orphan_page :: "node list" where
  "orphan_page =
     page [wrapper (Some ''https://files.example.org/x'') (fresh_state []),
           header [Text '' '', el ''a'' [] ''applink-protect'' [], Text '' '']]"

definition nav_page :: "node list" where
  "nav_page =
     page [header [el ''span'' [] [] []], el ''nav'' [] [] [el ''a'' [] ''applink-network'' []]]"

definition network_page :: "node list" where
  "network_page =
     page [header [el ''span'' [''host''] [] [el ''a'' [] ''applink-network'' []], Text '' '',
                   el ''span'' [] [] []]]"

definition plain_page :: "node list" where
  "plain_page = page [el ''p'' [] [] []]"

text \<open>A page that already holds two elements with the icon's id, one on the body before
  the header and one after it.\<close>

definition two_icon_page :: "node list" where
  "two_icon_page =
     page [wrapper (Some ''https://files.example.org/x'') (fresh_state []),
           header [el ''a'' [] ''applink-protect'' [], Text '' ''],
           wrapper (Some ''https://files.example.org/y'') (fresh_state [])]"

text \<open>The header page where the storage API is missing (a page outside the extension);
  the header page after one creation at 1000 ms and a removal of the icon.\<close>

definition demo_state :: state where
  "demo_state = (fresh_state unifi_page)\<lparr>storage := StorageMissing\<rparr>"

definition removed_once :: state where
  "removed_once = run (fresh_state unifi_page) [Create 1000 None, Remove]"



section \<open>Facts about the tree operations\<close>


lemma node_at_Cons: "q \<noteq> [] \<Longrightarrow> node_at d (x # q) = (if x < length d then node_at (kids (d ! x)) q else None)"
  by (cases q) auto
lemma insert_at_Cons: "q \<noteq> [] \<Longrightarrow> insert_at (x # q) n d = (if x < length d then d[x := under (insert_at q n) (d ! x)] else d)"
  by (cases q) auto
lemma remove_at_Cons: "q \<noteq> [] \<Longrightarrow> remove_at (x # q) d = (if x < length d then d[x := under (remove_at q) (d ! x)] else d)"
  by (cases q) auto
lemma map_at_Cons: "q \<noteq> [] \<Longrightarrow> map_at (x # q) f d = (if x < length d then d[x := under (map_at q f) (d ! x)] else d)"
  by (cases q) auto

lemma path_induct0:
  assumes "P []" and "\<And>k. P [k]" and "\<And>k j q. P (k # j # q)"
  shows "P p"
proof (cases p)
  case Nil then show ?thesis using assms(1) by simp
next
  case (Cons k q) then show ?thesis using assms(2,3) by (cases q) auto
qed

lemma node_at_Nil [simp]: "node_at [] q = None"
  by (induction q rule: path_induct0) auto

lemma path_induct [case_names Nil Single Cons]:
  assumes "P []" and "\<And>k. P [k]" and "\<And>k q. q \<noteq> [] \<Longrightarrow> P q \<Longrightarrow> P (k # q)"
  shows "P p"
proof (induction p)
  case Nil show ?case by (rule assms(1))
next
  case (Cons k q) then show ?case using assms(2,3) by (cases q) auto
qed

lemma kids_under [simp]: "kids (under f n) = (case n of Elem i cs \<Rightarrow> f cs | Text t \<Rightarrow> [])"
  by (cases n) auto
lemma is_elem_under [simp]: "is_elem (under f n) = is_elem n"
  by (cases n) auto

lemma count_append [simp]: "count_matches P (xs @ ys) = count_matches P xs + count_matches P ys"
  by (induction P xs rule: count_matches.induct) auto

lemma count_Cons: "count_matches P (n # ns) = count_matches P [n] + count_matches P ns"
  by (cases n) auto

lemma count_split: "k < length d \<Longrightarrow> count_matches P d = count_matches P (take k d) + count_matches P [d ! k] + count_matches P (drop (Suc k) d)"
proof -
  assume "k < length d"
  then have "d = take k d @ [d ! k] @ drop (Suc k) d" by (simp add: id_take_nth_drop)
  then have "count_matches P d = count_matches P (take k d @ [d ! k] @ drop (Suc k) d)" by simp
  then show ?thesis by (simp only: count_append) 
qed

lemma count_update: "k < length d \<Longrightarrow> count_matches P (d[k := n]) = count_matches P (take k d) + count_matches P [n] + count_matches P (drop (Suc k) d)"
  by (simp add: upd_conv_take_nth_drop count_Cons[of P n "drop (Suc k) d"])

lemma count_take_drop: "count_matches P (take k d) + count_matches P (drop k d) = count_matches P d"
  by (metis append_take_drop_id count_append)

lemma count_insert_le: "count_matches P (insert_at pos n d) \<le> count_matches P d + count_matches P [n]"
proof (induction pos n d rule: insert_at.induct)
  case (1 n ns) then show ?case by simp
next
  case (2 k n ns)
  have "count_matches P (take k ns) + count_matches P (drop k ns) = count_matches P ns" by (rule count_take_drop)
  then show ?case using count_Cons[of P n "drop k ns"] by simp
next
  case (3 k j p n ns)
  show ?case
  proof (cases "k < length ns")
    case True
    from 3[OF True] show ?thesis using True
      by (cases "ns ! k") (auto simp: count_update count_split[OF True, of P])
  qed simp
qed


lemma count_remove_exact:
  "node_at d q = Some n \<Longrightarrow> count_matches P (remove_at q d) + count_matches P [n] = count_matches P d"
proof (induction q d arbitrary: n rule: remove_at.induct)
  case (1 ns) then show ?case by simp
next
  case (2 k ns)
  then have k: "k < length ns" and n: "n = ns ! k" by (auto split: if_splits)
  show ?case using count_split[OF k, of P] n by simp
next
  case (3 k j p ns)
  from 3(2) have k: "k < length ns" and sub: "node_at (kids (ns ! k)) (j # p) = Some n"
    by (auto split: if_splits)
  show ?case
  proof (cases "ns ! k")
    case (Text t) with sub show ?thesis by simp
  next
    case (Elem i cs)
    with sub 3(1)[OF k] have "count_matches P (remove_at (j # p) cs) + count_matches P [n] = count_matches P cs"
      by simp
    then show ?thesis using k Elem by (simp add: count_update count_split[OF k, of P])
  qed
qed

lemma count_remove_le: "count_matches P (remove_at q d) \<le> count_matches P d"
proof (induction q d rule: remove_at.induct)
  case (1 ns) then show ?case by simp
next
  case (2 k ns)
  show ?case
  proof (cases "k < length ns")
    case True then show ?thesis using count_split[OF True, of P] by simp
  qed simp
next
  case (3 k j p ns)
  show ?case
  proof (cases "k < length ns")
    case True
    from 3[OF True] show ?thesis using True
      by (cases "ns ! k") (auto simp: count_update count_split[OF True, of P])
  qed simp
qed

lemma count_map_le:
  assumes f: "\<And>n. count_matches P [f n] \<le> count_matches P [n]"
  shows "count_matches P (map_at q f d) \<le> count_matches P d"
proof (induction q arbitrary: d rule: path_induct)
  case Nil then show ?case by simp
next
  case (Single k)
  show ?case
  proof (cases "k < length d")
    case True then show ?thesis using count_split[OF True, of P] f[of "d ! k"] by (simp add: count_update)
  qed simp
next
  case (Cons k q)
  show ?case
  proof (cases "k < length d")
    case True
    show ?thesis using True Cons(1) Cons(2)[of "kids (d ! k)"]
      by (cases "d ! k") (auto simp: map_at_Cons count_update count_split[OF True, of P])
  qed (simp add: map_at_Cons Cons(1))
qed

lemma find_first_None_iff: "find_first P d = None \<longleftrightarrow> count_matches P d = 0"
  by (induction P d rule: find_first.induct) (auto split: option.splits)

lemma find_first_nonempty: "find_first P d = Some q \<Longrightarrow> q \<noteq> []"
  by (induction P d arbitrary: q rule: find_first.induct) (auto split: option.splits if_splits, (case_tac z, auto)+)

lemma node_at_bump: "node_at (n # ns) (bump q) = node_at ns q"
proof (cases q)
  case Nil then show ?thesis by simp
next
  case (Cons k r) then show ?thesis by (cases r) auto
qed

lemma find_first_Some:
  "find_first P d = Some q \<Longrightarrow> \<exists>i cs. node_at d q = Some (Elem i cs) \<and> P i"
proof (induction P d arbitrary: q rule: find_first.induct)
  case (1 P) then show ?case by simp
next
  case (2 P t ns)
  then obtain r where r: "find_first P ns = Some r" and q: "q = bump r" by auto
  from 2(1)[OF r] show ?case using q by (simp add: node_at_bump)
next
  case (3 P i cs ns)
  show ?case
  proof (cases "P i")
    case True with 3(3) show ?thesis by auto
  next
    case False
    show ?thesis
    proof (cases "find_first P cs")
      case (Some r)
      with False 3(3) have q: "q = 0 # r" by simp
      from 3(1)[OF False Some] obtain i' cs' where "node_at cs r = Some (Elem i' cs')" "P i'" by blast
      moreover have "r \<noteq> []" using Some by (rule find_first_nonempty)
      ultimately show ?thesis using q by (auto simp: node_at_Cons)
    next
      case None
      with False 3(3) obtain r where r: "find_first P ns = Some r" and q: "q = bump r" by auto
      from 3(2)[OF False None r] show ?thesis using q by (simp add: node_at_bump)
    qed
  qed
qed

lemma node_at_count_pos:
  "node_at d q = Some (Elem i cs) \<Longrightarrow> P i \<Longrightarrow> 1 \<le> count_matches P d"
proof (induction d q rule: node_at.induct)
  case (1 ns) then show ?case by simp
next
  case (2 ns k)
  then have k: "k < length ns" and n: "ns ! k = Elem i cs" by (auto split: if_splits)
  show ?case using count_split[OF k, of P] n 2(2) by simp
next
  case (3 ns k j p)
  from 3(2) have k: "k < length ns" and sub: "node_at (kids (ns ! k)) (j # p) = Some (Elem i cs)"
    by (auto split: if_splits)
  from 3(1)[OF k sub 3(3)] show ?case using count_split[OF k, of P] by (cases "ns ! k") auto
qed

lemma removeIcon_doc_count0:
  "count_matches is_icon d \<le> 1 \<Longrightarrow> count_matches is_icon (removeIcon_doc d) = 0"
proof (cases "find_first is_icon d")
  case None
  then show ?thesis using None by (simp add: removeIcon_doc_def find_first_None_iff[symmetric])
next
  case (Some q)
  assume le: "count_matches is_icon d \<le> 1"
  from find_first_Some[OF Some] obtain i cs where n: "node_at d q = Some (Elem i cs)" and i: "is_icon i" by blast
  have "count_matches is_icon (remove_at q d) + count_matches is_icon [Elem i cs] = count_matches is_icon d"
    using n by (rule count_remove_exact)
  with le i show ?thesis using Some by (simp add: removeIcon_doc_def)
qed

section \<open>The icon count\<close>

lemma count_copy_classes [simp]: "count_matches is_icon [copy_classes cls n] = count_matches is_icon [n]"
  by (cases n) (auto simp: is_icon_def)

lemma count_fix_img [simp]: "count_matches is_icon [fix_img n] = count_matches is_icon [n]"
  by (cases n) (auto simp: is_icon_def)

lemma count_wrapper [simp]: "count_matches is_icon [wrapper link s] = 1"
  by (simp add: wrapper_def childEl_def img_node_def makeInlineSvg_def is_icon_def plain_def ICON_ID_def)

lemma count_scrub_le: "count_matches is_icon (scrub cs) \<le> count_matches is_icon cs"
  unfolding scrub_def
  by (auto split: option.splits node.splits intro!: count_map_le count_remove_le)

lemma count_restyle_le: "count_matches is_icon [restyle hostcls n] \<le> count_matches is_icon [n]"
  using count_scrub_le by (cases n) (auto simp: restyle_def is_icon_def)

lemma count_insertBefore_new:
  "insertBefore_new parent n ref d = Some (d', pos) \<Longrightarrow>
     count_matches P d' \<le> count_matches P d + count_matches P [n]"
  by (auto simp: insertBefore_new_def count_insert_le split: option.splits)

lemma count_insertBefore_move:
  assumes "insertBefore_move parent q ref d = Some (d', pos)"
  shows "count_matches P d' \<le> count_matches P d"
proof -
  from assms obtain n pos' where n: "node_at d q = Some n" and d': "d' = insert_at pos' n (remove_at q d)"
    by (auto simp: insertBefore_move_def Let_def split: option.splits if_splits)
  have "count_matches P d' \<le> count_matches P (remove_at q d) + count_matches P [n]"
    unfolding d' by (rule count_insert_le)
  also have "\<dots> = count_matches P d" using n by (rule count_remove_exact)
  finally show ?thesis .
qed

lemma count_move_into_header:
  "move_into_header d q sc a = Some (d', pos) \<Longrightarrow> count_matches P d' \<le> count_matches P d"
  by (auto simp: move_into_header_def Let_def split: option.splits if_splits dest: count_insertBefore_move)

lemma count_repairExisting_doc: "count_matches is_icon (repairExisting_doc d) \<le> count_matches is_icon d"
proof -
  have m: "\<And>q h d'. count_matches is_icon (map_at q (restyle h) d') \<le> count_matches is_icon d'"
    by (rule count_map_le) (rule count_restyle_le)
  show ?thesis
    unfolding repairExisting_doc_def Let_def
    by (auto split: option.splits if_splits
             dest!: count_move_into_header[where P=is_icon] count_insertBefore_move[where P=is_icon]
             intro: order_trans[OF m])
qed

lemma count_place_after_host:
  "place_after_host d a c w = Some d' \<Longrightarrow>
     count_matches is_icon d' \<le> count_matches is_icon d + count_matches is_icon [w]"
  by (auto simp: place_after_host_def Let_def split: option.splits if_splits
           dest!: count_insertBefore_new[where P=is_icon])

lemma count_try_place:
  assumes "try_place d c w = Some d'"
  shows "count_matches is_icon d' \<le> count_matches is_icon d + count_matches is_icon [w]"
proof -
  have m: "\<And>q h x. count_matches is_icon (map_at q (copy_classes h) x) \<le> count_matches is_icon x"
    by (rule count_map_le) simp
  show ?thesis using assms
    unfolding try_place_def Let_def
    by (auto split: option.splits
             dest!: count_insertBefore_new[where P=is_icon] count_place_after_host
             intro: order_trans[OF m] order_trans[OF count_repairExisting_doc])
qed

lemma count_last_resort:
  "count_matches is_icon (last_resort d w) \<le> count_matches is_icon d + count_matches is_icon [w]"
  by (auto simp: last_resort_def split: option.splits dest!: count_insertBefore_new[where P=is_icon])

lemma count_failed_wrapper [simp]:
  "count_matches is_icon [failed_wrapper d c w] = count_matches is_icon [w]"
  by (simp add: failed_wrapper_def split: option.splits)

lemma createIcon_singleton:
  assumes "count_matches is_icon (doc s) \<le> 1"
  shows "count_matches is_icon (doc (state_of (createIcon now link s))) \<le> 1"
proof (cases "debounced now s")
  case True with assms show ?thesis by (simp add: createIcon_def)
next
  case False
  have z: "count_matches is_icon (removeIcon_doc (doc s)) = 0"
    using assms by (rule removeIcon_doc_count0)
  show ?thesis
  proof (cases "resolve_container (removeIcon_doc (doc s))")
    case None with False z show ?thesis by (simp add: createIcon_def)
  next
    case (Some c)
    show ?thesis
    proof (cases "try_place (removeIcon_doc (doc s)) c (wrapper link s)")
      case None
      with False Some z show ?thesis
        using count_last_resort[of "removeIcon_doc (doc s)"
                "failed_wrapper (removeIcon_doc (doc s)) c (wrapper link s)"]
        by (simp add: createIcon_def Let_def)
    next
      case (Some d')
      from count_try_place[OF Some] z \<open>resolve_container _ = Some c\<close> False Some
      show ?thesis by (simp add: createIcon_def)
    qed
  qed
qed

lemma createIcon_single:
  "at_most_one_icon (doc s) \<Longrightarrow> at_most_one_icon (doc (state_of (createIcon now link s)))"
  unfolding at_most_one_icon_def by (rule createIcon_singleton)

lemma apply_settings_single:
  assumes "at_most_one_icon (doc s)"
  shows "at_most_one_icon (doc (state_of (apply_settings now link delay s)))"
proof -
  let ?r1 = "createIcon now (Some (or_str link DEFAULT_LINK)) s"
  have a: "at_most_one_icon (doc (state_of ?r1))" using assms by (rule createIcon_single)
  have b: "at_most_one_icon (doc (state_of (createIcon now (Some DEFAULT_LINK) (state_of ?r1))))"
    using a by (rule createIcon_single)
  show ?thesis
  proof (cases ?r1)
    case (Returned s') with a show ?thesis by (simp add: apply_settings_def)
  next
    case (Threw s')
    with b show ?thesis
      by (cases "createIcon now (Some DEFAULT_LINK) s'") (auto simp: apply_settings_def)
  qed
qed

lemma loadAndCreate_single:
  "at_most_one_icon (doc s) \<Longrightarrow> at_most_one_icon (doc (state_of (loadAndCreate now s)))"
  unfolding loadAndCreate_def Let_def
  by (cases "storage s") (auto intro!: apply_settings_single)

lemma storage_callback_single:
  "at_most_one_icon (doc s) \<Longrightarrow> at_most_one_icon (doc (state_of (storage_callback now s)))"
  unfolding storage_callback_def
  by (auto split: list.splits intro!: apply_settings_single)

lemma listener_doc [simp]: "doc (listener p s) = doc s"
  by (simp add: listener_def split: option.splits node.splits)

lemma listeners_doc [simp]: "doc (foldl (\<lambda>s' p. listener p s') s ps) = doc s"
  by (induction ps arbitrary: s) simp_all

lemma click_doc [simp]: "doc (click q s) = doc s"
  by (simp add: click_def split: option.splits)

lemma step_single:
  assumes "at_most_one_icon (doc s)"
  shows "at_most_one_icon (doc (step s e))"
proof (cases e)
  case (Create now link) with assms show ?thesis by (simp add: createIcon_single)
next
  case Remove
  with assms show ?thesis using removeIcon_doc_count0[of "doc s"]
    by (simp add: removeIcon_def at_most_one_icon_def)
next
  case Repair
  with assms show ?thesis using count_repairExisting_doc[of "doc s"]
    by (simp add: repairExisting_def at_most_one_icon_def)
next
  case (Observer now)
  with assms show ?thesis
    by (auto simp: observer_callback_def loadAndCreate_single split: option.splits)
next
  case (Poll now)
  with assms show ?thesis using createIcon_single[OF assms, of now None]
    by (auto simp: checkAndCreate_def split: outcome.splits)
next
  case (DelayedCreate now) with assms show ?thesis by (simp add: createIcon_single)
next
  case (Timer now k)
  with assms show ?thesis by (auto simp: fire_timer_def intro!: createIcon_single)
next
  case (StorageChanged now) with assms show ?thesis by (simp add: loadAndCreate_single)
next
  case (StorageCallback now) with assms show ?thesis by (simp add: storage_callback_single)
next
  case (Save v dl) with assms show ?thesis by (simp add: save_options_def)
next
  case (Click q) with assms show ?thesis by simp
qed

text \<open>
  Claim C1. Start from a state whose document holds at most one element with the icon's id
  and let any sequence of invocations happen: \<^verbatim>\<open>createIcon\<close>, \<^verbatim>\<open>removeIcon\<close>,
  \<^verbatim>\<open>repairExisting\<close>, the observer callback, the poll, the timers, a storage change,
  the answer to a storage read, a save on the options page, a click. Every state reached
  holds at most one such element.
\<close>

theorem singleton_invariant:
  "at_most_one_icon (doc s) \<Longrightarrow> at_most_one_icon (doc (run s es))"
  unfolding run_def
  by (induction es arbitrary: s) (auto intro: step_single)

theorem singleton_invariant_witness:
  "at_most_one_icon (doc (fresh_state unifi_page)) \<and>
   at_most_one_icon
     (doc (run (fresh_state unifi_page)
            [StorageChanged 1000, StorageCallback 1001, Poll 1200, Remove, Observer 2500,
             StorageCallback 2501, Remove, DelayedCreate 5000, Repair,
             Create 9000 (Some ''https://files.example.org/x'')]))"
proof -
  have h: "at_most_one_icon (doc (fresh_state unifi_page))"
    by (simp add: at_most_one_icon_def fresh_state_def unifi_page_def page_def header_def el_def
          is_icon_def plain_def ICON_ID_def)
  from singleton_invariant[OF h] h show ?thesis by blast
qed

section \<open>The debounce and the unguarded container\<close>

lemmas example_defs =
  fresh_state_def unifi_page_def page_def header_def el_def plain_def
  is_icon_def is_container_def is_protect_def is_network_def ICON_ID_def DEFAULT_LINK_def

lemma createIcon_last:
  "\<not> debounced now s \<Longrightarrow> last_ms (state_of (createIcon now link s)) = now"
  by (simp add: createIcon_def Let_def split: option.splits)

lemma createIcon_debounced: "debounced now s \<Longrightarrow> createIcon now link s = Returned s"
  by (simp add: createIcon_def)

lemma resolve_container_None:
  "resolve_container d = None \<Longrightarrow> querySelector is_container d = None \<and> body d = None"
  by (auto simp: resolve_container_def Let_def split: option.splits if_splits)

lemma createIcon_threw_iff:
  "threw (createIcon now link s) \<longleftrightarrow>
     \<not> debounced now s \<and> resolve_container (removeIcon_doc (doc s)) = None"
  by (simp add: createIcon_def Let_def split: option.splits)

text \<open>
  Claim C5 says that \<^verbatim>\<open>createIcon\<close> never lets an exception reach its caller. On a
  document without a body and without the header container the container resolves to
  \<^verbatim>\<open>null\<close>, and line 178 dereferences it before the outer \<^verbatim>\<open>try\<close> begins: the call
  throws, after it has set \<^verbatim>\<open>_last\<close>, and the icon is attached nowhere. By the two facts
  above this is the only way the call throws, and it needs a document without a body.
\<close>

theorem createIcon_throws_without_body:
  "createIcon 1000 (Some ''https://files.example.org/x'') (fresh_state bodyless_page)
     = Threw ((fresh_state bodyless_page)\<lparr>last_ms := 1000\<rparr>)"
  by (simp add: createIcon_def debounced_def removeIcon_doc_def resolve_container_def
        querySelector_def body_def bodyless_page_def example_defs)

text \<open>
  Claim C10, as amended: a call of \<^verbatim>\<open>createIcon\<close> made less than 500 ms after the latest
  call that was not itself suppressed returns at once and leaves the whole state, the
  document included, as it was, whatever link it carries. (The clock reading of that
  latest call must not be 0, which \<^verbatim>\<open>_last\<close> treats as unset.)
\<close>

theorem debounce_frame:
  assumes "\<not> debounced t1 s" and "t1 \<noteq> 0" and "t2 - t1 < 500"
  shows "createIcon t2 link2 (state_of (createIcon t1 link1 s))
           = Returned (state_of (createIcon t1 link1 s))"
proof -
  have "last_ms (state_of (createIcon t1 link1 s)) = t1" using assms(1) by (rule createIcon_last)
  with assms(2,3) have "debounced t2 (state_of (createIcon t1 link1 s))" by (simp add: debounced_def)
  then show ?thesis by (rule createIcon_debounced)
qed

theorem debounce_frame_witness:
  "\<not> debounced 1000 (fresh_state unifi_page) \<and> (1000::int) \<noteq> 0 \<and> (1400::int) - 1000 < 500 \<and>
   createIcon 1400 (Some ''https://b.example/'')
     (state_of (createIcon 1000 (Some ''https://a.example/'') (fresh_state unifi_page)))
     = Returned (state_of (createIcon 1000 (Some ''https://a.example/'') (fresh_state unifi_page)))"
proof -
  have h: "\<not> debounced 1000 (fresh_state unifi_page)" by (simp add: debounced_def fresh_state_def)
  from debounce_frame[OF h, of 1400 "Some ''https://b.example/''" "Some ''https://a.example/''"] h
  show ?thesis by simp
qed

text \<open>
  Claim C10 as stated fails when the previous invocation was itself suppressed: the window
  is measured from \<^verbatim>\<open>_last\<close>, which a suppressed call does not move. Calls at 1000, 1400
  and 1600 ms: the second is suppressed, the third comes 200 ms after it and still
  replaces the icon, so the document changes (the new icon carries the new link).
\<close>

theorem debounce_counterexample:
  "(1600::int) - 1400 < 500 \<and>
   doc (run (fresh_state unifi_page)
          [Create 1000 (Some ''https://a.example/''), Create 1400 (Some ''https://a.example/''),
           Create 1600 (Some ''https://b.example/'')])
   \<noteq> doc (run (fresh_state unifi_page)
          [Create 1000 (Some ''https://a.example/''), Create 1400 (Some ''https://a.example/'')])"
  by code_simp

section \<open>Settings\<close>

lemma createIcon_currentDriveLink [simp]:
  "currentDriveLink (state_of (createIcon now link s)) = currentDriveLink s"
  by (simp add: createIcon_def Let_def split: option.splits)

lemma apply_settings_currentDriveLink [simp]:
  "currentDriveLink (state_of (apply_settings now link delay s)) = currentDriveLink s"
proof -
  let ?r1 = "createIcon now (Some (or_str link DEFAULT_LINK)) s"
  have a: "currentDriveLink (state_of ?r1) = currentDriveLink s" by simp
  have b: "currentDriveLink (state_of (createIcon now (Some DEFAULT_LINK) (state_of ?r1))) = currentDriveLink s" by simp
  show ?thesis
  proof (cases ?r1)
    case (Returned s') with a show ?thesis by (simp add: apply_settings_def)
  next
    case (Threw s')
    with b show ?thesis
      by (cases "createIcon now (Some DEFAULT_LINK) s'") (auto simp: apply_settings_def)
  qed
qed

lemma createIcon_pending [simp]:
  "pending (state_of (createIcon now link s)) = pending s"
  by (simp add: createIcon_def Let_def split: option.splits)

lemma apply_settings_pending [simp]:
  "pending (state_of (apply_settings now link delay s)) = pending s"
proof -
  let ?r1 = "createIcon now (Some (or_str link DEFAULT_LINK)) s"
  have a: "pending (state_of ?r1) = pending s" by simp
  have b: "pending (state_of (createIcon now (Some DEFAULT_LINK) (state_of ?r1))) = pending s" by simp
  show ?thesis
  proof (cases ?r1)
    case (Returned s') with a show ?thesis by (simp add: apply_settings_def)
  next
    case (Threw s')
    with b show ?thesis
      by (cases "createIcon now (Some DEFAULT_LINK) s'") (auto simp: apply_settings_def)
  qed
qed

lemma storage_callback_pending [simp]:
  "pending (state_of (storage_callback now s)) = tl (pending s)"
  by (simp add: storage_callback_def split: list.splits)

lemma storage_callback_currentDriveLink:
  "pending s \<noteq> [] \<Longrightarrow>
   currentDriveLink (state_of (storage_callback now s)) = or_str (fst (hd (pending s))) DEFAULT_LINK"
  by (simp add: storage_callback_def split: list.splits)

lemma answer_n_currentDriveLink:
  "length (pending s) = Suc n \<Longrightarrow>
   currentDriveLink (answer_n (Suc n) now s) = or_str (fst (last (pending s))) DEFAULT_LINK"
proof (induction n arbitrary: s)
  case 0
  then obtain x where "pending s = [x]" by (cases "pending s") auto
  then show ?case using storage_callback_currentDriveLink[of s now] by simp
next
  case (Suc n)
  let ?s1 = "state_of (storage_callback now s)"
  from Suc.prems have l: "length (pending ?s1) = Suc n" by simp
  from Suc.prems have t: "tl (pending s) \<noteq> []" by (cases "pending s") auto
  have "currentDriveLink (answer_n (Suc (Suc n)) now s) = currentDriveLink (answer_n (Suc n) now ?s1)"
    by simp
  also have "\<dots> = or_str (fst (last (pending ?s1))) DEFAULT_LINK" using l by (rule Suc.IH)
  also have "last (pending ?s1) = last (pending s)" using t by (simp add: last_tl)
  finally show ?case .
qed

lemma loadAndCreate_answered:
  assumes "storage s = StorageOk"
  shows "currentDriveLink (answer_all later (state_of (loadAndCreate now s))) = configured_link s"
proof -
  let ?s1 = "state_of (loadAndCreate now s)"
  have p: "pending ?s1 = pending s @ [(case stored_link s of None \<Rightarrow> [] | Some v \<Rightarrow> v,
                                        case stored_delay s of None \<Rightarrow> 5 | Some v \<Rightarrow> v)]"
    using assms by (simp add: loadAndCreate_def Let_def)
  then have l: "length (pending ?s1) = Suc (length (pending s))" by simp
  show ?thesis
    unfolding answer_all_def l
    using answer_n_currentDriveLink[OF l, of later] p by (simp add: configured_link_def)
qed

text \<open>
  Claim C7. A link value is an absolute URL or empty: it carries no white space at either
  end (the save handler trims the field's text before it stores it). With the extension's
  storage at hand, saving such a value on the options page and loading the settings again
  (\<^verbatim>\<open>loadAndCreate\<close>, and the storage reads in flight answered) yields the same value in
  the options page's field, and the same value as the content script's current link unless
  it is empty. When the stored link is empty or no link is stored, the content script's
  current link is the default \<^verbatim>\<open>https://example.com\<close>.
\<close>

theorem settings_round_trip:
  assumes "storage s = StorageOk" and "trim v = v"
  shows "options_load (save_options v delay s) = v \<and>
         currentDriveLink (answer_all later (state_of (loadAndCreate now (save_options v delay s))))
           = (if v = [] then ''https://example.com'' else v) \<and>
         (stored_link s = None \<longrightarrow>
            currentDriveLink (answer_all later (state_of (loadAndCreate now s)))
              = ''https://example.com'')"
proof -
  have s': "storage (save_options v delay s) = StorageOk" using assms(1) by (simp add: save_options_def)
  show ?thesis
    using assms(2) loadAndCreate_answered[OF s', of later now] loadAndCreate_answered[OF assms(1), of later now]
    by (auto simp: configured_link_def save_options_def options_load_def or_str_def DEFAULT_LINK_def)
qed

lemma trim_example: "trim ''https://files.example.org/x'' = ''https://files.example.org/x''"
  by (simp add: trim_def is_ws_def)

theorem settings_round_trip_witness:
  "storage (fresh_state unifi_page) = StorageOk \<and>
   trim ''https://files.example.org/x'' = ''https://files.example.org/x'' \<and>
   stored_link (fresh_state unifi_page) = None \<and>
   options_load (save_options ''https://files.example.org/x'' (Some 5) (fresh_state unifi_page))
     = ''https://files.example.org/x'' \<and>
   currentDriveLink (answer_all 1001 (state_of (loadAndCreate 1000
       (save_options ''https://files.example.org/x'' (Some 5) (fresh_state unifi_page)))))
     = ''https://files.example.org/x'' \<and>
   currentDriveLink (answer_all 1001 (state_of (loadAndCreate 1000 (fresh_state unifi_page))))
     = ''https://example.com''"
proof -
  have h: "storage (fresh_state unifi_page) = StorageOk" by (simp add: fresh_state_def)
  have n: "stored_link (fresh_state unifi_page) = None" by (simp add: fresh_state_def)
  from settings_round_trip[OF h trim_example, of "Some 5" 1001 1000] trim_example h n
  show ?thesis by simp
qed

section \<open>Positions\<close>

lemma pos_ok_Cons:
  "q \<noteq> [] \<Longrightarrow> pos_ok d (x # q) = (x < length d \<and> is_elem (d ! x) \<and> pos_ok (kids (d ! x)) q)"
  by (cases q) auto

lemma node_at_snoc:
  "node_at d (p @ [k]) = (if p = [] then (if k < length d then Some (d ! k) else None)
                          else (if k < length (kids_at d p) then Some (kids_at d p ! k) else None))"
proof (induction p arbitrary: d rule: path_induct)
  case Nil then show ?case by simp
next
  case (Single x)
  show ?case by (auto simp: kids_at_def)
next
  case (Cons x q)
  then show ?case by (auto simp: node_at_Cons kids_at_def)
qed

lemma pos_ok_snoc:
  "pos_ok d (p @ [k]) = (if p = [] then k \<le> length d else elem_at d p \<and> k \<le> length (kids_at d p))"
proof (induction p arbitrary: d rule: path_induct)
  case Nil then show ?case by simp
next
  case (Single x)
  show ?case by (auto simp: kids_at_def elem_at_def)
next
  case (Cons x q)
  then show ?case by (cases "d ! x") (auto simp: pos_ok_Cons node_at_Cons kids_at_def elem_at_def)
qed

lemma ref_pos_ok: "ref_pos d parent ref = Some pos \<Longrightarrow> pos_ok d pos"
  unfolding ref_pos_def
proof (cases ref)
  case None
  assume "(if parent \<noteq> [] \<and> elem_at d parent
     then case ref of None \<Rightarrow> Some (parent @ [length (kids_at d parent)])
          | Some r \<Rightarrow> if r \<noteq> [] \<and> butlast r = parent \<and> node_at d r \<noteq> None then Some r else None
     else None) = Some pos"
  with None show ?thesis by (auto simp: pos_ok_snoc split: if_splits)
next
  case (Some r)
  assume a: "(if parent \<noteq> [] \<and> elem_at d parent
     then case ref of None \<Rightarrow> Some (parent @ [length (kids_at d parent)])
          | Some r \<Rightarrow> if r \<noteq> [] \<and> butlast r = parent \<and> node_at d r \<noteq> None then Some r else None
     else None) = Some pos"
  with Some have p: "parent \<noteq> []" "elem_at d parent" "r \<noteq> []" "butlast r = parent" "node_at d r \<noteq> None" "pos = r"
    by (auto split: if_splits)
  from p(3,4) have r: "r = parent @ [last r]" using append_butlast_last_id[of r] by simp
  from p(5) have "node_at d (parent @ [last r]) \<noteq> None" using r by simp
  then have "last r < length (kids_at d parent)" using p(1) by (auto simp: node_at_snoc split: if_splits)
  then have "pos_ok d (parent @ [last r])" using p(1,2) by (simp add: pos_ok_snoc)
  then show ?thesis using r p(6) by simp
qed

lemma node_at_insert_same: "pos_ok d pos \<Longrightarrow> node_at (insert_at pos n d) pos = Some n"
proof (induction pos arbitrary: d rule: path_induct)
  case Nil then show ?case by simp
next
  case (Single k) then show ?case by (simp add: nth_append)
next
  case (Cons k q)
  then show ?case by (cases "d ! k") (auto simp: pos_ok_Cons insert_at_Cons node_at_Cons)
qed

lemma node_at_map_same: "node_at (map_at pos f d) pos = map_option f (node_at d pos)"
proof (induction pos arbitrary: d rule: path_induct)
  case Nil then show ?case by simp
next
  case (Single k) then show ?case by simp
next
  case (Cons k q)
  then show ?case by (cases "d ! k") (auto simp: map_at_Cons node_at_Cons)
qed

text \<open>Nodes at or below an earlier sibling of the position are untouched.\<close>

lemma node_at_insert_before:
  "pos_ok d (p @ [k]) \<Longrightarrow> j < k \<Longrightarrow>
     node_at (insert_at (p @ [k]) n d) (p @ j # rest) = node_at d (p @ j # rest)"
proof (induction p arbitrary: d rule: path_induct)
  case Nil
  then show ?case by (cases rest) (auto simp: nth_append node_at_Cons)
next
  case (Single x)
  then show ?case by (cases "d ! x"; cases rest) (auto simp: nth_append node_at_Cons)
next
  case (Cons x q)
  then show ?case by (cases "d ! x") (auto simp: insert_at_Cons node_at_Cons pos_ok_Cons)
qed

lemma node_at_map_other:
  "j \<noteq> k \<Longrightarrow> node_at (map_at (p @ [k]) f d) (p @ j # rest) = node_at d (p @ j # rest)"
proof (induction p arbitrary: d rule: path_induct)
  case Nil
  then show ?case by (cases rest) (auto simp: node_at_Cons)
next
  case (Single x)
  then show ?case by (cases "d ! x"; cases rest) (auto simp: node_at_Cons)
next
  case (Cons x q)
  then show ?case by (cases "d ! x") (auto simp: map_at_Cons node_at_Cons)
qed

section \<open>Placement next to the protect anchor\<close>

lemma node_at_append:
  "c \<noteq> [] \<Longrightarrow> r \<noteq> [] \<Longrightarrow> node_at d (c @ r) = node_at (kids_at d c) r"
proof (induction c arbitrary: d rule: path_induct)
  case Nil then show ?case by simp
next
  case (Single x)
  then show ?case by (auto simp: node_at_Cons kids_at_def)
next
  case (Cons x q)
  then show ?case by (auto simp: node_at_Cons kids_at_def)
qed

lemma parent_is_elem:
  "node_at d (p @ [k]) = Some x \<Longrightarrow> p \<noteq> [] \<Longrightarrow> elem_at d p"
proof -
  assume a: "node_at d (p @ [k]) = Some x" and p: "p \<noteq> []"
  then have "k < length (kids_at d p)" by (auto simp: node_at_snoc split: if_splits)
  then have "kids_at d p \<noteq> []" by auto
  moreover have "kids y \<noteq> [] \<Longrightarrow> is_elem y" for y by (cases y) auto
  ultimately show ?thesis
    by (cases "node_at d p") (auto simp: kids_at_def elem_at_def)
qed

lemma next_pos_snoc [simp]: "next_pos (p @ [k]) = p @ [Suc k]"
  by (simp add: next_pos_def)

lemma insertBefore_new_after:
  assumes "node_at d a \<noteq> None" and "2 \<le> length a"
  shows "insertBefore_new (butlast a) n (nextSibling d a) d
           = Some (insert_at (next_pos a) n d, next_pos a)"
proof -
  define p where "p = butlast a"
  define k where "k = last a"
  have a: "a = p @ [k]" and p: "p \<noteq> []"
    using assms(2) unfolding p_def k_def by (cases a rule: rev_cases; auto)+
  from assms(1) obtain x where x: "node_at d (p @ [k]) = Some x" using a by auto
  have e: "elem_at d p" using x p by (rule parent_is_elem)
  have k: "k < length (kids_at d p)" using x p by (auto simp: node_at_snoc split: if_splits)
  show ?thesis
  proof (cases "node_at d (p @ [Suc k])")
    case None
    then have "Suc k = length (kids_at d p)" using k p by (auto simp: node_at_snoc split: if_splits)
    then show ?thesis using None e p a
      by (simp add: insertBefore_new_def ref_pos_def nextSibling_def)
  next
    case (Some y)
    then show ?thesis using e p a
      by (simp add: insertBefore_new_def ref_pos_def nextSibling_def)
  qed
qed

lemma info_at_insert_above:
  "t \<noteq> [] \<Longrightarrow> rest \<noteq> [] \<Longrightarrow> info_at (insert_at (t @ rest) n d) t = info_at d t"
proof (induction t arbitrary: d rule: path_induct)
  case Nil then show ?case by simp
next
  case (Single x)
  then show ?case by (cases "d ! x") (auto simp: info_at_def insert_at_Cons)
next
  case (Cons x q)
  then show ?case by (cases "d ! x") (auto simp: info_at_def insert_at_Cons node_at_Cons)
qed

lemma classes_at_info: "classes_at d p = (case info_at d p of Some i \<Rightarrow> classes i | None \<Rightarrow> [])"
  by (auto simp: classes_at_def info_at_def split: option.splits node.splits)

lemma querySelector_in_Some:
  assumes "c \<noteq> []" and "querySelector_in sel' d c = Some a"
  shows "\<exists>r. r \<noteq> [] \<and> a = c @ r" and "2 \<le> length a"
    and "\<exists>i cs. node_at d a = Some (Elem i cs) \<and> sel' i"
proof -
  note c = assms(1)
  from assms(2) obtain r where r: "find_first sel' (kids_at d c) = Some r" and a: "a = c @ r"
    by (auto simp: querySelector_in_def)
  have rn: "r \<noteq> []" using r by (rule find_first_nonempty)
  show "\<exists>r. r \<noteq> [] \<and> a = c @ r" using a rn by blast
  show "2 \<le> length a" using a rn c by (cases c; cases r) auto
  from find_first_Some[OF r] show "\<exists>i cs. node_at d a = Some (Elem i cs) \<and> sel' i"
    using a c rn by (simp add: node_at_append)
qed

lemma first_child_Some:
  "first_child P d = Some k \<Longrightarrow> k < length d \<and> (\<exists>i cs. d ! k = Elem i cs \<and> P i)"
  by (induction P d arbitrary: k rule: first_child.induct) (auto split: if_splits)

lemma body_Some:
  assumes "body d = Some b"
  shows "\<exists>r k i cs i' cs'. b = [r, k] \<and> node_at d [r] = Some (Elem i cs) \<and> tag i = ''html'' \<and>
           node_at d b = Some (Elem i' cs') \<and> (tag i' = ''body'' \<or> tag i' = ''frameset'')"
proof -
  from assms obtain r where r: "first_child (\<lambda>i. True) d = Some r"
    by (auto simp: body_def split: option.splits)
  from first_child_Some[OF r] obtain i cs where rl: "r < length d" and dr: "d ! r = Elem i cs" by blast
  from assms r dr obtain k where h: "tag i = ''html''"
      and k: "first_child (\<lambda>i. tag i = ''body'' \<or> tag i = ''frameset'') cs = Some k" and b: "b = [r, k]"
    by (auto simp: body_def split: if_splits)
  from first_child_Some[OF k] obtain i' cs' where "k < length cs" "cs ! k = Elem i' cs'"
      "tag i' = ''body'' \<or> tag i' = ''frameset''" by blast
  then show ?thesis using rl dr h b by auto
qed

lemma anc_loop_result: "anc_loop anc p = [] \<or> prefix (anc_loop anc p) anc"
proof (induction anc p rule: anc_loop.induct)
  case (1 anc p)
  show ?case
  proof (cases "anc \<noteq> [] \<and> \<not> prefix anc p")
    case True
    with 1 have "anc_loop (parentElement anc) p = [] \<or> prefix (anc_loop (parentElement anc) p) (parentElement anc)"
      by simp
    moreover have "prefix (parentElement anc) anc" by (simp add: parentElement_def prefixeq_butlast)
    ultimately show ?thesis using True by (subst anc_loop.simps) (auto intro: prefix_order.trans)
  next
    case False
    then show ?thesis by (subst anc_loop.simps) auto
  qed
qed

lemma resolve_container_nonempty: "resolve_container d = Some c \<Longrightarrow> c \<noteq> []"
  by (auto simp: resolve_container_def querySelector_def Let_def
           split: option.splits if_splits dest: find_first_nonempty body_Some)

lemma or_parent_deep: "2 \<le> length a \<Longrightarrow> or_parent a c = butlast a"
  by (cases a rule: rev_cases) (auto simp: or_parent_def parentElement_def)

text \<open>
  Claim C3, as amended. \<^verbatim>\<open>createIcon\<close> first discards the previous icon; what remains is
  the document it places the new icon into. When a call is not suppressed by the debounce,
  the container resolves in that document and holds a protect anchor, the call returns,
  the anchor stays where it was, and the node right after the anchor among its parent's
  child nodes is the new wrapper (carrying the classes of the anchor's parent): the icon
  is the anchor's next sibling. The direct insertion never fails, so the fallback of lines
  203 to 220 is not taken.
\<close>

theorem protect_adjacency:
  assumes "\<not> debounced now s"
      and "resolve_container (cleared s) = Some c"
      and "querySelector_in is_protect (cleared s) c = Some a"
  shows "\<not> threw (createIcon now link s) \<and>
         node_at (placed now link s) a = node_at (cleared s) a \<and>
         node_at (placed now link s) (next_pos a)
           = Some (copy_classes (classes_at (cleared s) (butlast a)) (wrapper link s))"
proof -
  define d1 where "d1 = cleared s"
  define w where "w = wrapper link s"
  define p where "p = butlast a"
  define k where "k = last a"
  note q = querySelector_in_Some[OF resolve_container_nonempty[OF assms(2)] assms(3)]
  have a: "a = p @ [k]" and pn: "p \<noteq> []"
    using q(2) unfolding p_def k_def by (cases a rule: rev_cases; auto)+
  have na: "node_at d1 a \<noteq> None" using q(3) by (auto simp: d1_def)
  have ins: "insertBefore_new (butlast a) w (nextSibling d1 a) d1 = Some (insert_at (next_pos a) w d1, next_pos a)"
    using na q(2) by (rule insertBefore_new_after)
  have ok: "pos_ok d1 (next_pos a)"
    using ins by (auto simp: insertBefore_new_def split: option.splits dest: ref_pos_ok)
  define d2 where "d2 = insert_at (next_pos a) w d1"
  have cls: "classes_at d2 p = classes_at d1 p"
    unfolding d2_def a using pn by (simp add: classes_at_info info_at_insert_above)
  have tp: "try_place d1 c w = Some (map_at (next_pos a) (copy_classes (classes_at d1 p)) d2)"
    using assms(3) ins cls q(2)
    by (simp add: try_place_def d1_def[symmetric] Let_def or_parent_deep d2_def[symmetric] p_def[symmetric])
  have res: "createIcon now link s = Returned (s\<lparr>last_ms := now, doc := map_at (next_pos a) (copy_classes (classes_at d1 p)) d2\<rparr>)"
    using assms(1) assms(2) tp
    by (simp add: createIcon_def cleared_def[symmetric] d1_def[symmetric] w_def[symmetric])
  have pl: "placed now link s = map_at (next_pos a) (copy_classes (classes_at d1 p)) d2"
    using res by (simp add: placed_def)
  have 1: "node_at (placed now link s) (next_pos a) = Some (copy_classes (classes_at d1 p) w)"
    unfolding pl d2_def using ok by (simp add: node_at_map_same node_at_insert_same)
  have "node_at (placed now link s) (p @ k # []) = node_at d2 (p @ k # [])"
    unfolding pl a next_pos_snoc by (rule node_at_map_other) simp
  also have "\<dots> = node_at d1 (p @ k # [])"
    unfolding d2_def a next_pos_snoc using ok[unfolded a next_pos_snoc] by (rule node_at_insert_before) simp
  finally have 2: "node_at (placed now link s) a = node_at d1 a" using a by simp
  show ?thesis using res 1 2 by (simp add: d1_def w_def p_def)
qed


theorem protect_adjacency_witness:
  "\<not> debounced 2000 placed_once \<and>
   resolve_container (cleared placed_once) = Some [0, 1, 0] \<and>
   querySelector_in is_protect (cleared placed_once) [0, 1, 0] = Some [0, 1, 0, 2] \<and>
   \<not> threw (createIcon 2000 (Some ''https://files.example.org/x'') placed_once) \<and>
   node_at (placed 2000 (Some ''https://files.example.org/x'') placed_once) [0, 1, 0, 2]
     = node_at (cleared placed_once) [0, 1, 0, 2] \<and>
   node_at (placed 2000 (Some ''https://files.example.org/x'') placed_once) (next_pos [0, 1, 0, 2])
     = Some (copy_classes (classes_at (cleared placed_once) (butlast [0, 1, 0, 2]))
               (wrapper (Some ''https://files.example.org/x'') placed_once))"
proof -
  have h1: "\<not> debounced 2000 placed_once" by code_simp
  have h2: "resolve_container (cleared placed_once) = Some [0, 1, 0]" by code_simp
  have h3: "querySelector_in is_protect (cleared placed_once) [0, 1, 0] = Some [0, 1, 0, 2]" by code_simp
  from protect_adjacency[OF h1 h2 h3, of "Some ''https://files.example.org/x''"] h1 h2 h3
  show ?thesis by blast
qed

text \<open>
  Claim C3 as stated speaks of every run of \<^verbatim>\<open>createIcon\<close> on a document with the protect
  anchor inside the container. A call inside the debounce window returns at line 41 before
  it looks at the document: the header page has had its icon created at 1000 ms and
  removed again; a call at 1200 ms is suppressed, returns without an exception and leaves
  the document without an icon, the node after the protect anchor being the text that
  was there before.
\<close>

theorem protect_adjacency_counterexample:
  "resolve_container (cleared removed_once) = Some [0, 1, 0] \<and>
   querySelector_in is_protect (cleared removed_once) [0, 1, 0] = Some [0, 1, 0, 2] \<and>
   debounced 1200 removed_once \<and>
   \<not> threw (createIcon 1200 None removed_once) \<and>
   find_first is_icon (placed 1200 None removed_once) = None \<and>
   node_at (placed 1200 None removed_once) (next_pos [0, 1, 0, 2]) = Some (Text '' '')"
  by code_simp

section \<open>Moving a node\<close>

lemma shift_Cons:
  "q \<noteq> [] \<Longrightarrow> shift (j # q) (k # rest) = (if j = k then k # shift q rest else k # rest)"
  by (cases q) auto

lemma shift_Nil2 [simp]: "shift q [] = []"
  by (induction q rule: path_induct0) auto

lemma length_shift [simp]: "length (shift q t) = length t"
  by (induction q t rule: shift.induct) auto

lemma shift_eq_Nil [simp]: "shift q t = [] \<longleftrightarrow> t = []"
  using length_shift[of q t] by (metis length_0_conv)

lemma remove_at_length_single: "j < length d \<Longrightarrow> length (remove_at [j] d) = length d - 1"
  by auto

lemma remove_at_nth_single:
  "j < length d \<Longrightarrow> k < length d - 1 \<Longrightarrow> remove_at [j] d ! k = (if k < j then d ! k else d ! Suc k)"
  by (auto simp: nth_append min_def)

lemma pos_ok_shift:
  "pos_ok d t \<Longrightarrow> node_at d q \<noteq> None \<Longrightarrow> \<not> prefix q (butlast t) \<Longrightarrow> pos_ok (remove_at q d) (shift q t)"
proof (induction q t arbitrary: d rule: shift.induct)
  case (1 j k rest)
  from 1(2) have j: "j < length d" by (auto split: if_splits)
  show ?case
  proof (cases rest)
    case Nil
    with 1 j show ?thesis by (auto simp del: remove_at.simps simp: remove_at_length_single)
  next
    case (Cons x xs)
    with 1(3) have jk: "j \<noteq> k" by auto
    from 1(1) Cons have k: "k < length d" and e: "is_elem (d ! k)" and r: "pos_ok (kids (d ! k)) rest"
      by auto
    have rn: "rest \<noteq> []" using Cons by simp
    show ?thesis
    proof (cases "j < k")
      case True
      then have "remove_at [j] d ! (k - 1) = d ! k" using j k
        by (subst remove_at_nth_single) auto
      then show ?thesis using True j k e r rn
        by (simp del: remove_at.simps add: pos_ok_Cons remove_at_length_single)
    next
      case False
      with jk have "k < j" by simp
      then have "remove_at [j] d ! k = d ! k" using j k
        by (subst remove_at_nth_single) auto
      then show ?thesis using \<open>k < j\<close> j k e r rn
        by (simp del: remove_at.simps add: pos_ok_Cons remove_at_length_single)
    qed
  qed
next
  case (2 j v va k rest)
  let ?q = "v # va"
  from 2(3) have j: "j < length d" and sub: "node_at (kids (d ! j)) ?q \<noteq> None"
    by (auto split: if_splits)
  show ?case
  proof (cases "j = k")
    case False
    then show ?thesis using 2(2) j
      by (cases rest) (auto simp: pos_ok_Cons)
  next
    case True
    show ?thesis
    proof (cases rest)
      case Nil
      then show ?thesis using True 2(2) j by auto
    next
      case (Cons x xs)
      with 2(2) True have e: "is_elem (d ! j)" and r: "pos_ok (kids (d ! j)) rest" by auto
      from 2(4) Cons True have np: "\<not> prefix ?q (butlast rest)" by auto
      from 2(1)[OF True r sub np] have "pos_ok (remove_at ?q (kids (d ! j))) (shift ?q rest)" .
      moreover have "shift ?q rest \<noteq> []" using Cons by simp
      ultimately show ?thesis using True j e
        by (cases "d ! j") (auto simp: pos_ok_Cons)
    qed
  qed
qed auto


lemma node_at_remove_shift:
  "node_at d q \<noteq> None \<Longrightarrow> \<not> prefix q a \<Longrightarrow> \<not> prefix a q \<Longrightarrow>
     node_at (remove_at q d) (shift q a) = node_at d a"
proof (induction q a arbitrary: d rule: shift.induct)
  case (1 j k rest)
  from 1(1) have j: "j < length d" by (auto split: if_splits)
  from 1(2) have jk: "j \<noteq> k" by auto
  show ?case
  proof (cases "j < k")
    case True
    have "k - 1 < length d - 1 \<Longrightarrow> remove_at [j] d ! (k - 1) = d ! k"
      using j True by (subst remove_at_nth_single) auto
    moreover have "k - 1 < length d - 1 \<longleftrightarrow> k < length d" using True by auto
    ultimately show ?thesis using True
      by (cases rest) (auto simp del: remove_at.simps simp: remove_at_length_single[OF j])
  next
    case False
    with jk have kj: "k < j" by simp
    then have "remove_at [j] d ! k = d ! k" using j by (subst remove_at_nth_single) auto
    moreover have "k < length d - 1" "k < length d" using kj j by auto
    ultimately show ?thesis using kj
      by (cases rest) (auto simp del: remove_at.simps simp: remove_at_length_single[OF j])
  qed
next
  case (2 j v va k rest)
  let ?q = "v # va"
  from 2(2) have j: "j < length d" and sub: "node_at (kids (d ! j)) ?q \<noteq> None"
    by (auto split: if_splits)
  show ?case
  proof (cases "j = k")
    case False
    then show ?thesis using j by (cases rest) (auto)
  next
    case True
    from 2(4) True have rn: "rest \<noteq> []" by auto
    from 2(3) True have np: "\<not> prefix ?q rest" by auto
    from 2(4) True have np': "\<not> prefix rest ?q" by auto
    from 2(1)[OF True sub np np'] have "node_at (remove_at ?q (kids (d ! j))) (shift ?q rest) = node_at (kids (d ! j)) rest" .
    moreover have "shift ?q rest \<noteq> []" using rn by simp
    ultimately show ?thesis using True j rn
      by (cases "d ! j") (auto simp: node_at_Cons)
  qed
qed auto

lemma next_pos_Cons: "rest \<noteq> [] \<Longrightarrow> next_pos (k # rest) = k # next_pos rest"
  by (simp add: next_pos_def)

lemma next_pos_single [simp]: "next_pos [k] = [Suc k]"
  by (simp add: next_pos_def)

lemma next_pos_nonempty [simp]: "next_pos a \<noteq> []"
  by (simp add: next_pos_def)

lemma shift_next_pos:
  "a \<noteq> [] \<Longrightarrow> \<not> prefix q a \<Longrightarrow> \<not> prefix a q \<Longrightarrow>
     shift q (if next_pos a = q then next_pos q else next_pos a) = next_pos (shift q a)"
proof (induction q a rule: shift.induct)
  case (1 j k rest)
  from 1(2) have jk: "j \<noteq> k" by auto
  show ?case
  proof (cases rest)
    case Nil
    then show ?thesis using jk by auto
  next
    case (Cons x xs)
    then have rn: "rest \<noteq> []" by simp
    then have "next_pos (k # rest) \<noteq> [j]" by (simp add: next_pos_Cons)
    then show ?thesis using rn jk by (auto simp: next_pos_Cons)
  qed
next
  case (2 j v va k rest)
  let ?q = "v # va"
  show ?case
  proof (cases "j = k")
    case False
    show ?thesis
    proof (cases rest)
      case Nil
      then show ?thesis using False by (auto simp: shift_Cons)
    next
      case (Cons x xs)
      then have rn: "rest \<noteq> []" by simp
      have "next_pos (k # rest) \<noteq> j # ?q" using False rn by (simp add: next_pos_Cons)
      then show ?thesis using False rn by (simp add: next_pos_Cons)
    qed
  next
    case True
    from 2(4) True have rn: "rest \<noteq> []" by auto
    from 2(3) True have np: "\<not> prefix ?q rest" by auto
    from 2(4) True have np': "\<not> prefix rest ?q" by auto
    from 2(1)[OF True rn np np']
    have ih: "shift ?q (if next_pos rest = ?q then next_pos ?q else next_pos rest) = next_pos (shift ?q rest)" .
    have sn: "shift ?q rest \<noteq> []" using rn by simp
    show ?thesis using True rn ih sn
      by (auto simp: next_pos_Cons)
  qed
qed auto

lemma prefix_shift: "prefix t u \<Longrightarrow> prefix (shift q t) (shift q u)"
proof (induction q t arbitrary: u rule: shift.induct)
  case (1 j k rest)
  then obtain u' where "u = k # u'" "prefix rest u'" by (cases u) auto
  then show ?case by auto
next
  case (2 j v va k rest)
  then obtain u' where u: "u = k # u'" "prefix rest u'" by (cases u) auto
  with 2(1) show ?case by auto
qed auto

lemma info_at_remove_shift:
  "node_at d q \<noteq> None \<Longrightarrow> \<not> prefix q t \<Longrightarrow> info_at (remove_at q d) (shift q t) = info_at d t"
proof (cases "prefix t q")
  case False
  assume "node_at d q \<noteq> None" "\<not> prefix q t"
  then show ?thesis using False by (simp add: info_at_def node_at_remove_shift)
next
  case True
  assume "node_at d q \<noteq> None" "\<not> prefix q t"
  then show ?thesis using True
  proof (induction q t arbitrary: d rule: shift.induct)
    case (1 j k rest)
    then show ?case by auto
  next
    case (2 j v va k rest)
    let ?q = "v # va"
    from 2(2) have j: "j < length d" and sub: "node_at (kids (d ! j)) ?q \<noteq> None"
      by (auto split: if_splits)
    from 2(4) have jk: "j = k" and pr: "prefix rest ?q" by auto
    show ?case
    proof (cases rest)
      case Nil
      then show ?thesis using jk j by (cases "d ! j") (auto simp: info_at_def)
    next
      case (Cons x xs)
      then have rn: "rest \<noteq> []" by simp
      from 2(3) jk have np: "\<not> prefix ?q rest" by auto
      from 2(1)[OF jk sub np pr]
      have "info_at (remove_at ?q (kids (d ! j))) (shift ?q rest) = info_at (kids (d ! j)) rest" .
      moreover have "shift ?q rest \<noteq> []" using rn by simp
      ultimately show ?thesis using jk j rn
        by (cases "d ! j") (auto simp: info_at_def node_at_Cons)
    qed
  qed (auto simp: info_at_def)
qed

lemma info_at_map_above:
  "t \<noteq> [] \<Longrightarrow> rest \<noteq> [] \<Longrightarrow> info_at (map_at (t @ rest) f d) t = info_at d t"
proof (induction t arbitrary: d rule: path_induct)
  case Nil then show ?case by simp
next
  case (Single x)
  then show ?case by (cases "d ! x") (auto simp: info_at_def map_at_Cons)
next
  case (Cons x q)
  then show ?case by (cases "d ! x") (auto simp: info_at_def map_at_Cons node_at_Cons)
qed

section \<open>The repair pass\<close>

lemma ref_pos_after:
  assumes "node_at d a \<noteq> None" and "2 \<le> length a"
  shows "ref_pos d (butlast a) (nextSibling d a) = Some (next_pos a)"
  using insertBefore_new_after[OF assms, of "Text []"]
  by (auto simp: insertBefore_new_def split: option.splits)

lemma pos_ok_next_pos: "node_at d q \<noteq> None \<Longrightarrow> pos_ok d (next_pos q)"
proof (induction q arbitrary: d rule: path_induct)
  case Nil then show ?case by simp
next
  case (Single k) then show ?case by (auto split: if_splits)
next
  case (Cons k q)
  from Cons(3) Cons(1) have k: "k < length d" and sub: "node_at (kids (d ! k)) q \<noteq> None"
    by (auto simp: node_at_Cons split: if_splits)
  from sub have "is_elem (d ! k)" by (cases "d ! k") auto
  with Cons(2)[OF sub] k Cons(1) show ?case by (simp add: next_pos_Cons pos_ok_Cons)
qed

lemma butlast_next_pos: "a \<noteq> [] \<Longrightarrow> butlast (next_pos a) = butlast a"
  by (simp add: next_pos_def)

lemma not_prefix_butlast: "\<not> prefix q a \<Longrightarrow> \<not> prefix q (butlast a)"
  by (meson prefix_order.trans prefixeq_butlast)

lemma move_after:
  assumes n: "node_at d q = Some n" and a: "node_at d a \<noteq> None" and l: "2 \<le> length a"
      and qa: "\<not> prefix q a" and aq: "\<not> prefix a q"
  shows "insertBefore_move (butlast a) q (nextSibling d a) d
           = Some (insert_at (next_pos (shift q a)) n (remove_at q d), next_pos (shift q a))"
    and "pos_ok (remove_at q d) (next_pos (shift q a))"
proof -
  have an: "a \<noteq> []" using l by auto
  have qn: "node_at d q \<noteq> None" using n by simp
  define pos0 where "pos0 = (if next_pos a = q then next_pos q else next_pos a)"
  have rp: "ref_pos d (butlast a) (nextSibling d a) = Some (next_pos a)" using a l by (rule ref_pos_after)
  have sh: "shift q pos0 = next_pos (shift q a)" unfolding pos0_def using an qa aq by (rule shift_next_pos)
  have npb: "\<not> prefix q (butlast a)" using qa by (rule not_prefix_butlast)
  show "insertBefore_move (butlast a) q (nextSibling d a) d
           = Some (insert_at (next_pos (shift q a)) n (remove_at q d), next_pos (shift q a))"
    using rp n npb sh by (simp add: insertBefore_move_def pos0_def Let_def)
  have ok0: "pos_ok d pos0"
    unfolding pos0_def using ref_pos_ok[OF rp] pos_ok_next_pos[OF qn] by simp
  have bl: "butlast pos0 = butlast a"
  proof (cases "next_pos a = q")
    case True
    then have "pos0 = next_pos (next_pos a)" by (simp add: pos0_def)
    then show ?thesis by (simp add: butlast_next_pos an)
  next
    case False then show ?thesis by (simp add: pos0_def butlast_next_pos an)
  qed
  have "pos_ok (remove_at q d) (shift q pos0)"
    using ok0 qn npb[folded bl] by (rule pos_ok_shift)
  then show "pos_ok (remove_at q d) (next_pos (shift q a))" using sh by simp
qed

lemma strict_prefix_next_pos:
  assumes "strict_prefix c a"
  shows "strict_prefix c (next_pos a)"
proof -
  from assms obtain z zs where a: "a = c @ z # zs" by (auto simp: strict_prefix_def prefix_def, case_tac zs, auto)
  then have "a \<noteq> []" by simp
  have "butlast a = c @ butlast (z # zs)" using a by (simp add: butlast_append)
  then have "next_pos a = c @ (butlast (z # zs) @ [Suc (last a)])" by (simp add: next_pos_def)
  then show ?thesis by (auto simp: strict_prefix_def)
qed

lemma split_last: "a \<noteq> [] \<Longrightarrow> a = butlast a @ [last a]"
  by simp

text \<open>
  Claim C6. The icon is the first element with the icon's id; let it be a child of the
  body, let the header container exist and hold a protect anchor, and let the icon not hold
  that anchor (the script's icon holds an image or an SVG only). Removing the icon moves
  the paths of its later siblings, so a node at \<open>t\<close> before the repair is at \<open>shift q t\<close>
  after it. After \<^verbatim>\<open>repairExisting\<close> the anchor is unchanged, the node right after it
  among its parent's children is the icon (restyled with the classes of the anchor's
  parent), and that place lies below the container, which is still the same element.
\<close>

theorem repair_convergence:
  assumes icon: "find_first is_icon d = Some q"
      and bd: "body d = Some b" and att: "butlast q = b"
      and sc: "querySelector is_container d = Some sc"
      and pa: "querySelector_in is_protect d sc = Some a"
      and qa: "\<not> prefix q a"
  shows "node_at (repairExisting_doc d) (shift q a) = node_at d a \<and>
         node_at (repairExisting_doc d) (next_pos (shift q a))
           = map_option (restyle (classes_at d (butlast a))) (node_at d q) \<and>
         info_at (repairExisting_doc d) (shift q sc) = info_at d sc \<and>
         strict_prefix (shift q sc) (next_pos (shift q a))"
proof -
  have scn: "sc \<noteq> []" using sc unfolding querySelector_def by (rule find_first_nonempty)
  note qs = querySelector_in_Some[OF scn pa]
  from qs(1) obtain r where r: "r \<noteq> []" and ar: "a = sc @ r" by blast
  from qs(3) obtain ai acs where an: "node_at d a = Some (Elem ai acs)" and ap: "is_protect ai" by blast
  from find_first_Some[OF icon] obtain qi qcs where qn: "node_at d q = Some (Elem qi qcs)" by blast
  have qne: "q \<noteq> []" using icon by (rule find_first_nonempty)
  from body_Some[OF bd] obtain r0 k0 hi hcs bi bcs where b: "b = [r0, k0]"
      and h: "node_at d [r0] = Some (Elem hi hcs)" "tag hi = ''html''"
      and bb: "node_at d b = Some (Elem bi bcs)" "tag bi = ''body'' \<or> tag bi = ''frameset''"
    by blast
  have aq: "\<not> prefix a q"
  proof
    assume p: "prefix a q"
    with qa have "a \<noteq> q" by auto
    moreover have "q = b @ [last q]" using att split_last[OF qne] by simp
    ultimately have "prefix a b" using p by (metis prefix_snoc)
    then have "a = [] \<or> a = [r0] \<or> a = [r0, k0]" unfolding b
      by (cases a; cases "tl a"; cases "tl (tl a)") auto
    with an ap h bb b show False by (auto simp: is_protect_def)
  qed
  have l: "2 \<le> length a" by (rule qs(2))
  have ane: "node_at d a \<noteq> None" using an by simp
  note mv = move_after[OF qn ane l qa aq]
  define a' where "a' = shift q a"
  define pos' where "pos' = next_pos a'"
  define dm where "dm = insert_at pos' (Elem qi qcs) (remove_at q d)"
  define h where "h = classes_at d (butlast a)"
  have pe: "parentElement a = butlast a" "parentElement a \<noteq> []" using l
    by (cases a rule: rev_cases; auto simp: parentElement_def)+
  have rep: "repairExisting_doc d = map_at pos' (restyle h) dm"
    using icon sc pa mv(1) pe
    by (simp add: repairExisting_doc_def Let_def move_into_header_def a'_def pos'_def dm_def h_def)
  have a'n: "a' \<noteq> []" using l by (auto simp: a'_def)
  have a's: "a' = butlast a' @ [last a']" using a'n by simp
  have pos's: "pos' = butlast a' @ [Suc (last a')]" by (simp add: pos'_def next_pos_def)
  have ok: "pos_ok (remove_at q d) pos'" using mv(2) by (simp add: pos'_def a'_def)
  have 1: "node_at (repairExisting_doc d) pos' = Some (restyle h (Elem qi qcs))"
    unfolding rep dm_def using ok by (simp add: node_at_map_same node_at_insert_same)
  have "node_at (repairExisting_doc d) (butlast a' @ last a' # []) = node_at dm (butlast a' @ last a' # [])"
    unfolding rep pos's by (rule node_at_map_other) simp
  also have "\<dots> = node_at (remove_at q d) (butlast a' @ last a' # [])"
    unfolding dm_def pos's using ok[unfolded pos's] by (rule node_at_insert_before) simp
  also have "\<dots> = node_at (remove_at q d) a'" using a's by simp
  also have "\<dots> = node_at d a" unfolding a'_def using qn qa aq by (intro node_at_remove_shift) auto
  finally have 2: "node_at (repairExisting_doc d) a' = node_at d a" using a's by simp
  define sc' where "sc' = shift q sc"
  have "strict_prefix sc a" using ar r by (auto simp: strict_prefix_def)
  then have "prefix sc' a'" "length sc' < length a'"
    unfolding sc'_def a'_def using prefix_shift[of sc a q] ar r by (auto simp: strict_prefix_def)
  then have sp: "strict_prefix sc' a'" by (auto simp: strict_prefix_def)
  then have sp': "strict_prefix sc' pos'" unfolding pos'_def by (rule strict_prefix_next_pos)
  then obtain rest where rest: "pos' = sc' @ rest" "rest \<noteq> []"
    by (auto simp: strict_prefix_def prefix_def)
  have sc'n: "sc' \<noteq> []" using scn by (simp add: sc'_def)
  have nqs: "\<not> prefix q sc" using qa ar by (metis prefix_order.trans prefixI)
  have "info_at (repairExisting_doc d) sc' = info_at dm sc'"
    unfolding rep rest(1) using sc'n rest(2) by (rule info_at_map_above)
  also have "\<dots> = info_at (remove_at q d) sc'"
    unfolding dm_def rest(1) using sc'n rest(2) by (rule info_at_insert_above)
  also have "\<dots> = info_at d sc" unfolding sc'_def using qn nqs by (intro info_at_remove_shift) auto
  finally have 3: "info_at (repairExisting_doc d) sc' = info_at d sc" .
  show ?thesis using 1 2 3 sp' qn by (simp add: a'_def pos'_def sc'_def h_def)
qed

theorem repair_convergence_witness:
  "find_first is_icon orphan_page = Some [0, 1, 0] \<and>
   body orphan_page = Some [0, 1] \<and> butlast [0, 1, 0] = [0, 1 :: nat] \<and>
   querySelector is_container orphan_page = Some [0, 1, 1] \<and>
   querySelector_in is_protect orphan_page [0, 1, 1] = Some [0, 1, 1, 1] \<and>
   \<not> prefix [0, 1, 0] [0, 1, 1, 1 :: nat] \<and>
   node_at (repairExisting_doc orphan_page) (shift [0, 1, 0] [0, 1, 1, 1])
     = node_at orphan_page [0, 1, 1, 1] \<and>
   node_at (repairExisting_doc orphan_page) (next_pos (shift [0, 1, 0] [0, 1, 1, 1]))
     = map_option (restyle (classes_at orphan_page (butlast [0, 1, 1, 1]))) (node_at orphan_page [0, 1, 0]) \<and>
   info_at (repairExisting_doc orphan_page) (shift [0, 1, 0] [0, 1, 1]) = info_at orphan_page [0, 1, 1] \<and>
   strict_prefix (shift [0, 1, 0] [0, 1, 1]) (next_pos (shift [0, 1, 0] [0, 1, 1, 1]))"
proof -
  have h1: "find_first is_icon orphan_page = Some [0, 1, 0]" by code_simp
  have h2: "body orphan_page = Some [0, 1]" by code_simp
  have h3: "butlast [0, 1, 0] = [0, 1 :: nat]" by simp
  have h4: "querySelector is_container orphan_page = Some [0, 1, 1]" by code_simp
  have h5: "querySelector_in is_protect orphan_page [0, 1, 1] = Some [0, 1, 1, 1]" by code_simp
  have h6: "\<not> prefix [0, 1, 0] [0, 1, 1, 1 :: nat]" by simp
  from repair_convergence[OF h1 h2 h3 h4 h5 h6] h1 h2 h3 h4 h5 h6 show ?thesis by blast
qed

section \<open>Insertion, search and counting\<close>

lemma kids_at_Cons: "q \<noteq> [] \<Longrightarrow> x < length d \<Longrightarrow> kids_at d (x # q) = kids_at (kids (d ! x)) q"
  by (simp add: kids_at_def node_at_Cons)

lemma elem_at_Cons: "q \<noteq> [] \<Longrightarrow> elem_at d (x # q) = (x < length d \<and> elem_at (kids (d ! x)) q)"
  by (simp add: elem_at_def node_at_Cons)

lemma kids_at_insert:
  "c \<noteq> [] \<Longrightarrow> elem_at d c \<Longrightarrow>
     kids_at (insert_at (c @ [u]) n d) c = take u (kids_at d c) @ n # drop u (kids_at d c)"
proof (induction c arbitrary: d rule: path_induct)
  case Nil then show ?case by simp
next
  case (Single x)
  then show ?case by (cases "d ! x") (auto simp: kids_at_def elem_at_def split: if_splits)
next
  case (Cons x q)
  from Cons(4) Cons(1) have x: "x < length d" and e: "elem_at (kids (d ! x)) q"
    by (auto simp: elem_at_Cons)
  from e have "is_elem (d ! x)" by (cases "d ! x") (auto simp: elem_at_def)
  then obtain i cs where dx: "d ! x = Elem i cs" by (cases "d ! x") auto
  from Cons(2)[OF Cons(1) e] show ?case using x dx Cons(1)
    by (simp add: insert_at_Cons kids_at_Cons)
qed

lemma remove_insert: "pos_ok d pos \<Longrightarrow> remove_at pos (insert_at pos n d) = d"
proof (induction pos arbitrary: d rule: path_induct)
  case Nil then show ?case by simp
next
  case (Single k)
  then show ?case by (simp add: min_def)
next
  case (Cons k q)
  then show ?case
    by (cases "d ! k") (auto simp: pos_ok_Cons insert_at_Cons remove_at_Cons list_update_same_conv)
qed

lemma map_insert: "pos_ok d pos \<Longrightarrow> map_at pos f (insert_at pos n d) = insert_at pos (f n) d"
proof (induction pos arbitrary: d rule: path_induct)
  case Nil then show ?case by simp
next
  case (Single k)
  then show ?case by (simp add: list_update_append nth_append)
next
  case (Cons k q)
  then show ?case
    by (cases "d ! k") (auto simp: pos_ok_Cons insert_at_Cons map_at_Cons)
qed

lemma count_insert_exact:
  "pos_ok d pos \<Longrightarrow> count_matches P (insert_at pos n d) = count_matches P d + count_matches P [n]"
proof (induction pos arbitrary: d rule: path_induct)
  case Nil then show ?case by simp
next
  case (Single k)
  have "count_matches P (take k d) + count_matches P (drop k d) = count_matches P d" by (rule count_take_drop)
  then show ?case using count_Cons[of P n "drop k d"] by simp
next
  case (Cons k q)
  from Cons(3) Cons(1) have k: "k < length d" and e: "is_elem (d ! k)" and ok: "pos_ok (kids (d ! k)) q"
    by (auto simp: pos_ok_Cons)
  from e obtain i cs where dk: "d ! k = Elem i cs" by (cases "d ! k") auto
  from Cons(2)[OF ok] dk have "count_matches P (insert_at q n cs) = count_matches P cs + count_matches P [n]" by simp
  then show ?case using k dk Cons(1)
    by (simp add: insert_at_Cons count_update count_split[OF k, of P])
qed

text \<open>Searching a list that starts with nodes holding no match.\<close>

lemma bump_bump_by: "bump (bump_by m p) = bump_by (Suc m) p"
  by (cases p) auto

lemma find_first_append_None:
  "find_first P xs = None \<Longrightarrow> find_first P (xs @ ys) = map_option (bump_by (length xs)) (find_first P ys)"
proof (induction P xs rule: find_first.induct)
  case (1 P)
  have "bump_by 0 p = p" for p by (cases p) auto
  then show ?case by (simp add: option.map_ident_strong)
next
  case (2 P t ns)
  then show ?case by (auto simp: option.map_comp comp_def bump_bump_by)
next
  case (3 P i cs ns)
  then show ?case by (auto simp: option.map_comp comp_def bump_bump_by split: option.splits if_splits)
qed

lemma find_first_insert_fresh:
  assumes "count_matches P d = 0" and "pos_ok d pos" and "n = Elem i cs" and "P i"
  shows "find_first P (insert_at pos n d) = Some pos"
  using assms(1,2)
proof (induction pos arbitrary: d rule: path_induct)
  case Nil then show ?case by simp
next
  case (Single k)
  have "count_matches P (take k d) + count_matches P (drop k d) = count_matches P d" by (rule count_take_drop)
  with Single have "find_first P (take k d) = None" by (simp add: find_first_None_iff)
  then show ?case using Single assms(3,4) by (simp add: find_first_append_None min_def)
next
  case (Cons k q)
  from Cons(4) Cons(1) have k: "k < length d" and e: "is_elem (d ! k)" and ok: "pos_ok (kids (d ! k)) q"
    by (auto simp: pos_ok_Cons)
  from e obtain j js where dk: "d ! k = Elem j js" by (cases "d ! k") auto
  have c: "count_matches P (take k d) = 0" "count_matches P [Elem j js] = 0"
    using count_split[OF k, of P] Cons(3) dk by auto
  then have nj: "\<not> P j" and cj: "count_matches P js = 0" by (auto split: if_splits)
  from Cons(2)[OF cj] ok dk have ih: "find_first P (insert_at q n js) = Some q" by simp
  have "insert_at (k # q) n d = take k d @ Elem j (insert_at q n js) # drop (Suc k) d"
    using k dk Cons(1) by (simp add: insert_at_Cons upd_conv_take_nth_drop)
  moreover have "find_first P (take k d) = None" using c(1) by (simp add: find_first_None_iff)
  ultimately show ?case using nj ih k by (simp add: find_first_append_None min_def)
qed

lemma insert_at_bump: "p \<noteq> [] \<Longrightarrow> insert_at (bump p) n (x # ns) = x # insert_at p n ns"
proof (induction p rule: path_induct0)
  case (3 k j q)
  then show ?case by (auto simp: insert_at_Cons)
qed auto

lemma find_first_insert_below:
  "find_first P d = Some c \<Longrightarrow> rest \<noteq> [] \<Longrightarrow> find_first P (insert_at (c @ rest) n d) = Some c"
proof (induction P d arbitrary: c rule: find_first.induct)
  case (1 P) then show ?case by simp
next
  case (2 P t ns)
  then obtain c0 where c0: "find_first P ns = Some c0" and c: "c = bump c0" by auto
  have c0n: "c0 \<noteq> []" using c0 by (rule find_first_nonempty)
  have b: "bump c0 @ rest = bump (c0 @ rest)" using c0n by (cases c0) auto
  from 2(1)[OF c0 2(3)] show ?case using c c0n b by (simp add: insert_at_bump)
next
  case (3 P i cs ns)
  show ?case
  proof (cases "P i")
    case True
    with 3(3) have "c = [0]" by simp
    then show ?thesis using True 3(4) by (simp add: insert_at_Cons)
  next
    case False
    show ?thesis
    proof (cases "find_first P cs")
      case (Some p)
      with False 3(3) have c: "c = 0 # p" by simp
      have pn: "p \<noteq> []" using Some by (rule find_first_nonempty)
      from 3(1)[OF False Some 3(4)] show ?thesis using c False pn 3(4)
        by (simp add: insert_at_Cons)
    next
      case None
      with False 3(3) obtain c0 where c0: "find_first P ns = Some c0" and c: "c = bump c0" by auto
      have c0n: "c0 \<noteq> []" using c0 by (rule find_first_nonempty)
      have b: "bump c0 @ rest = bump (c0 @ rest)" using c0n by (cases c0) auto
      from 3(2)[OF False None c0 3(4)] show ?thesis using c c0n b False None
        by (simp add: insert_at_bump)
    qed
  qed
qed

lemma shift_sibling: "shift (c @ [j]) (c @ [k]) = c @ [if j < k then k - 1 else k]"
  by (induction c) (auto simp: shift_Cons)

lemma elem_at_prefix:
  "node_at d (p @ r) \<noteq> None \<Longrightarrow> p \<noteq> [] \<Longrightarrow> r \<noteq> [] \<Longrightarrow> elem_at d p"
proof -
  assume a: "node_at d (p @ r) \<noteq> None" and p: "p \<noteq> []" and r: "r \<noteq> []"
  then have "node_at (kids_at d p) r \<noteq> None" by (simp add: node_at_append)
  then have "kids_at d p \<noteq> []" by auto
  moreover have "kids y \<noteq> [] \<Longrightarrow> is_elem y" for y by (cases y) auto
  ultimately show ?thesis by (cases "node_at d p") (auto simp: kids_at_def elem_at_def)
qed

lemma resolve_container_elem: "resolve_container d = Some c \<Longrightarrow> elem_at d c"
proof -
  assume rc: "resolve_container d = Some c"
  have f: "find_first P d = Some x \<Longrightarrow> elem_at d x" for P x
    by (drule find_first_Some) (auto simp: elem_at_def)
  have b: "body d = Some x \<Longrightarrow> elem_at d x" for x
    by (drule body_Some) (auto simp: elem_at_def)
  show ?thesis
  proof (cases "querySelector is_container d")
    case (Some sc)
    with rc show ?thesis using f by (auto simp: resolve_container_def querySelector_def)
  next
    case None
    show ?thesis
    proof (cases "\<exists>n p. querySelector is_network d = Some n \<and> querySelector is_protect d = Some p \<and> anc_loop (parentElement n) p \<noteq> []")
      case False
      with rc None have "body d = Some c"
        by (auto simp: resolve_container_def Let_def split: option.splits if_splits)
      then show ?thesis by (rule b)
    next
      case True
      then obtain n p where n: "querySelector is_network d = Some n" and p: "querySelector is_protect d = Some p"
        and an: "anc_loop (parentElement n) p \<noteq> []" by blast
      with rc None have c: "c = anc_loop (parentElement n) p" by (simp add: resolve_container_def Let_def)
      from anc_loop_result[of "parentElement n" p] an c have pr: "prefix c (parentElement n)" by simp
      have cn: "c \<noteq> []" using an c by simp
      with pr have pe: "parentElement n = butlast n" "n \<noteq> []" by (auto simp: parentElement_def split: if_splits)
      from pr pe obtain r where "butlast n = c @ r" by (auto simp: prefix_def)
      then have nn: "n = c @ (r @ [last n])" using pe(2) by (metis append_assoc append_butlast_last_id)
      from find_first_Some[OF n[unfolded querySelector_def]] have "node_at d n \<noteq> None" by auto
      then have "node_at d (c @ (r @ [last n])) \<noteq> None" using nn by simp
      then show ?thesis using cn by (rule elem_at_prefix) simp
    qed
  qed
qed

section \<open>The three placement branches\<close>

lemma find_upt_Some:
  "List.find P [a..<b] = Some u \<longleftrightarrow> a \<le> u \<and> u < b \<and> P u \<and> (\<forall>j. a \<le> j \<and> j < u \<longrightarrow> \<not> P j)"
proof
  assume "List.find P [a..<b] = Some u"
  then obtain i where i: "i < length [a..<b]" "P ([a..<b] ! i)" "u = [a..<b] ! i"
      "\<forall>j<i. \<not> P ([a..<b] ! j)" unfolding find_Some_iff by blast
  then have u: "u = a + i" "i < b - a" by auto
  have "\<not> P j" if "a \<le> j" "j < u" for j
  proof -
    from that u have "j - a < i" by simp
    with i(4) have "\<not> P ([a..<b] ! (j - a))" by blast
    moreover have "[a..<b] ! (j - a) = j" using that u by simp
    ultimately show ?thesis by simp
  qed
  with i u show "a \<le> u \<and> u < b \<and> P u \<and> (\<forall>j. a \<le> j \<and> j < u \<longrightarrow> \<not> P j)" by auto
next
  assume r0: "a \<le> u \<and> u < b \<and> P u \<and> (\<forall>j. a \<le> j \<and> j < u \<longrightarrow> \<not> P j)"
  then have r: "a \<le> u" "u < b" "P u" "\<And>j. a \<le> j \<Longrightarrow> j < u \<Longrightarrow> \<not> P j" by auto
  show "List.find P [a..<b] = Some u"
    unfolding find_Some_iff
  proof (intro exI[of _ "u - a"] conjI allI impI)
    show "u - a < length [a..<b]" using r(1,2) by auto
    show "P ([a..<b] ! (u - a))" using r(1,2,3) by auto
    show "u = [a..<b] ! (u - a)" using r(1,2) by auto
    fix j assume j: "j < u - a"
    then have "[a..<b] ! j = a + j" using r(1,2) by auto
    moreover have "\<not> P (a + j)" using j r(1) by (intro r(4)) auto
    ultimately show "\<not> P ([a..<b] ! j)" by simp
  qed
qed

lemma find_upt_None:
  "List.find P [a..<b] = None \<longleftrightarrow> (\<forall>j. a \<le> j \<and> j < b \<longrightarrow> \<not> P j)"
  by (auto simp: find_None_iff)

lemma try_place_protect:
  assumes c: "c \<noteq> []" and pa: "querySelector_in is_protect d c = Some a"
  shows "try_place d c w = Some (insert_at (next_pos a) (copy_classes (classes_at d (butlast a)) w) d)"
    and "pos_ok d (next_pos a)"
proof -
  define p where "p = butlast a"
  define k where "k = last a"
  note q = querySelector_in_Some[OF c pa]
  have a: "a = p @ [k]" and pn: "p \<noteq> []"
    using q(2) unfolding p_def k_def by (cases a rule: rev_cases; auto)+
  have na: "node_at d a \<noteq> None" using q(3) by auto
  have ins: "insertBefore_new (butlast a) w (nextSibling d a) d = Some (insert_at (next_pos a) w d, next_pos a)"
    using na q(2) by (rule insertBefore_new_after)
  show ok: "pos_ok d (next_pos a)"
    using ins by (auto simp: insertBefore_new_def split: option.splits dest: ref_pos_ok)
  have cls: "classes_at (insert_at (next_pos a) w d) p = classes_at d p"
    unfolding a using pn by (simp add: classes_at_info info_at_insert_above)
  show "try_place d c w = Some (insert_at (next_pos a) (copy_classes (classes_at d (butlast a)) w) d)"
    using pa ins cls q(2) ok
    by (simp add: try_place_def Let_def or_parent_deep p_def[symmetric] map_insert)
qed

lemma host_found:
  assumes c: "c \<noteq> []" and n: "querySelector_in sel d c = Some n"
  shows "findDirectChildContaining d n c = Some (host_of c n)"
    and "\<exists>k. host_of c n = c @ [k] \<and> k < length (kids_at d c) \<and> (\<exists>rest. n = c @ k # rest)"
proof -
  note q = querySelector_in_Some[OF c n]
  from q(1) obtain r where r: "r \<noteq> []" and nr: "n = c @ r" by blast
  then obtain k rest where kr: "r = k # rest" by (cases r) auto
  have h: "host_of c n = c @ [k]" by (simp add: host_of_def nr kr)
  from q(3) have nn: "node_at (kids_at d c) (k # rest) \<noteq> None" using c nr kr by (auto simp: node_at_append)
  then have kl: "k < length (kids_at d c)" by (cases rest) (auto split: if_splits)
  have ke: "is_elem (kids_at d c ! k)"
  proof (cases rest)
    case Nil
    with q(3) c nr kr kl show ?thesis by (auto simp: node_at_append)
  next
    case (Cons x xs)
    with nn kl have "node_at (kids (kids_at d c ! k)) (x # xs) \<noteq> None" by simp
    then show ?thesis by (cases "kids_at d c ! k") auto
  qed
  have "List.find (\<lambda>j. is_elem (kids_at d c ! j) \<and> prefix (c @ [j]) n) [0..<length (kids_at d c)] = Some k"
    unfolding find_upt_Some using kl ke nr kr by auto
  then show "findDirectChildContaining d n c = Some (host_of c n)"
    using c nr r h by (simp add: findDirectChildContaining_def)
  show "\<exists>k. host_of c n = c @ [k] \<and> k < length (kids_at d c) \<and> (\<exists>rest. n = c @ k # rest)"
    using h kl nr kr by blast
qed

lemma icon_pos_facts:
  assumes c: "c \<noteq> []" and e: "elem_at d c" and h: "host_of c n = c @ [k]" and kl: "k < length (kids_at d c)"
  shows "\<exists>u. icon_pos d c n = c @ [u] \<and> k < u \<and> u \<le> length (kids_at d c) \<and>
             (\<forall>j. k < j \<and> j < u \<longrightarrow> \<not> is_elem (kids_at d c ! j))"
    and "ref_pos d c (nextElementChild d (host_of c n)) = Some (icon_pos d c n)"
proof -
  let ?f = "List.find (\<lambda>u. is_elem (kids_at d c ! u)) [Suc k ..< length (kids_at d c)]"
  have ne: "nextElementChild d (host_of c n) = map_option (\<lambda>u. c @ [u]) ?f"
    by (simp add: nextElementChild_def h)
  show "\<exists>u. icon_pos d c n = c @ [u] \<and> k < u \<and> u \<le> length (kids_at d c) \<and>
             (\<forall>j. k < j \<and> j < u \<longrightarrow> \<not> is_elem (kids_at d c ! j))"
  proof (cases ?f)
    case None
    then have "\<forall>j. Suc k \<le> j \<and> j < length (kids_at d c) \<longrightarrow> \<not> is_elem (kids_at d c ! j)"
      by (simp add: find_upt_None)
    then show ?thesis using None ne kl by (auto simp: icon_pos_def)
  next
    case (Some u)
    then have "Suc k \<le> u \<and> u < length (kids_at d c) \<and> is_elem (kids_at d c ! u) \<and>
               (\<forall>j. Suc k \<le> j \<and> j < u \<longrightarrow> \<not> is_elem (kids_at d c ! j))"
      by (simp add: find_upt_Some)
    then show ?thesis using Some ne by (auto simp: icon_pos_def)
  qed
  show "ref_pos d c (nextElementChild d (host_of c n)) = Some (icon_pos d c n)"
  proof (cases ?f)
    case None
    then show ?thesis using ne c e by (simp add: ref_pos_def icon_pos_def)
  next
    case (Some u)
    then have "u < length (kids_at d c)" by (simp add: find_upt_Some)
    then have "node_at d (c @ [u]) \<noteq> None" using c by (simp add: node_at_snoc)
    then show ?thesis using Some ne c e by (simp add: ref_pos_def icon_pos_def)
  qed
qed

lemma place_after_host_ok:
  assumes c: "c \<noteq> []" and e: "elem_at d c" and n: "querySelector_in sel d c = Some n"
  shows "place_after_host d n c w
           = Some (insert_at (icon_pos d c n) (copy_classes (classes_at d (host_of c n)) w) d)"
    and "pos_ok d (icon_pos d c n)"
proof -
  note hf = host_found[OF c n]
  from hf(2) obtain k where h: "host_of c n = c @ [k]" and kl: "k < length (kids_at d c)" by blast
  note ip = icon_pos_facts[OF c e h kl]
  show "pos_ok d (icon_pos d c n)" using ip(2) by (rule ref_pos_ok)
  have "butlast (host_of c n) = c" "host_of c n \<noteq> []" using h by auto
  then show "place_after_host d n c w
           = Some (insert_at (icon_pos d c n) (copy_classes (classes_at d (host_of c n)) w) d)"
    using hf(1) ip(2) by (simp add: place_after_host_def Let_def insertBefore_new_def)
qed


text \<open>With a container the body of the outer \<^verbatim>\<open>try\<close> always inserts the wrapper: the
  outer \<^verbatim>\<open>catch\<close> and its append to the body are never reached.\<close>

lemma try_place_succeeds:
  assumes rc: "resolve_container d = Some c"
  shows "try_place d c w \<noteq> None"
proof -
  have c: "c \<noteq> []" using rc by (rule resolve_container_nonempty)
  have e: "elem_at d c" using rc by (rule resolve_container_elem)
  show ?thesis
  proof (cases "querySelector_in is_protect d c")
    case (Some a)
    from try_place_protect(1)[OF c Some, of w] show ?thesis by simp
  next
    case None
    show ?thesis
    proof (cases "querySelector_in is_network d c")
      case (Some n)
      from place_after_host_ok(1)[OF c e Some, of w] None Some show ?thesis
        by (simp add: try_place_def)
    next
      case nn: None
      have "insertBefore_new c w None d \<noteq> None"
        using c e by (simp add: insertBefore_new_def ref_pos_def)
      then show ?thesis using None nn by (auto simp: try_place_def split: option.splits)
    qed
  qed
qed

lemma elem_at_info: "elem_at d p \<longleftrightarrow> info_at d p \<noteq> None"
  by (auto simp: elem_at_def info_at_def split: option.splits node.splits)

lemma wrapper_facts:
  "count_matches is_container [wrapper link s] = 0"
  "count_matches is_protect [wrapper link s] = 0"
  "\<exists>i cs. wrapper link s = Elem i cs \<and> is_icon i \<and> click_link i = Some link"
  by (simp_all add: wrapper_def childEl_def img_node_def makeInlineSvg_def plain_def
        is_container_def is_protect_def is_icon_def)

lemma is_elem_wrapper [simp]: "is_elem (wrapper link s)"
  by (simp add: wrapper_def)

lemma is_elem_copy_classes [simp]: "is_elem (copy_classes cls n) = is_elem n"
  by (cases n) auto

lemma next_element_after_insert:
  assumes c: "c \<noteq> []" and e: "elem_at d c" and ku: "k < u" and ul: "u \<le> length (kids_at d c)"
      and gap: "\<forall>j. k < j \<and> j < u \<longrightarrow> \<not> is_elem (kids_at d c ! j)" and w: "is_elem w"
  shows "nextElementChild (insert_at (c @ [u]) w d) (c @ [k]) = Some (c @ [u])"
proof -
  let ?ks = "kids_at d c"
  have ks: "kids_at (insert_at (c @ [u]) w d) c = take u ?ks @ w # drop u ?ks"
    using c e by (rule kids_at_insert)
  have lt: "length (take u ?ks) = u" using ul by simp
  have nu: "(take u ?ks @ w # drop u ?ks) ! u = w" using lt by (simp add: nth_append)
  have nj: "(take u ?ks @ w # drop u ?ks) ! j = ?ks ! j" if "j < u" for j
    using that lt by (simp add: nth_append)
  have "List.find (\<lambda>x. is_elem ((take u ?ks @ w # drop u ?ks) ! x)) [Suc k..<length (take u ?ks @ w # drop u ?ks)] = Some u"
    unfolding find_upt_Some using ku ul w gap nu nj by auto
  then show ?thesis by (simp add: nextElementChild_def ks)
qed

lemma try_place_neither:
  assumes rc: "resolve_container d = Some c"
      and np: "querySelector_in is_protect d c = None"
      and nn: "querySelector_in is_network d c = None"
      and z: "count_matches is_icon d = 0"
  shows "try_place d c (wrapper link s)
           = Some (insert_at (c @ [length (kids_at d c)])
                     (if querySelector is_container d = None then wrapper link s
                      else restyle [] (wrapper link s)) d)"
    and "pos_ok d (c @ [length (kids_at d c)])"
proof -
  define w where "w = wrapper link s"
  define pos where "pos = c @ [length (kids_at d c)]"
  define d2 where "d2 = insert_at pos w d"
  have c: "c \<noteq> []" using rc by (rule resolve_container_nonempty)
  have e: "elem_at d c" using rc by (rule resolve_container_elem)
  show ok: "pos_ok d (c @ [length (kids_at d c)])" using c e by (simp add: pos_ok_snoc)
  have ins: "insertBefore_new c w None d = Some (d2, pos)"
    using c e by (simp add: insertBefore_new_def ref_pos_def pos_def d2_def)
  from wrapper_facts(3)[of link s] obtain wi wcs where wi: "w = Elem wi wcs" "is_icon wi" by (auto simp: w_def)
  have fi: "find_first is_icon d2 = Some pos"
    unfolding d2_def using z ok[folded pos_def] wi by (rule find_first_insert_fresh)
  have rep: "repairExisting_doc d2 = insert_at pos (if querySelector is_container d = None then w else restyle [] w) d"
  proof (cases "querySelector is_container d")
    case None
    then have "count_matches is_container d = 0" by (simp add: querySelector_def find_first_None_iff)
    then have "count_matches is_container d2 = 0"
      unfolding d2_def using ok[folded pos_def] wrapper_facts(1)[of link s] by (simp add: count_insert_exact w_def)
    then have "querySelector is_container d2 = None" by (simp add: querySelector_def find_first_None_iff)
    then show ?thesis using fi None by (simp add: repairExisting_doc_def d2_def)
  next
    case (Some sc)
    with rc have sc: "sc = c" by (simp add: resolve_container_def)
    have fc: "querySelector is_container d2 = Some c"
      using Some sc unfolding querySelector_def d2_def pos_def by (auto intro: find_first_insert_below)
    have ks: "kids_at d2 c = take (length (kids_at d c)) (kids_at d c) @ w # drop (length (kids_at d c)) (kids_at d c)"
      unfolding d2_def pos_def using c e by (rule kids_at_insert)
    have "count_matches is_protect (kids_at d c) = 0"
      using np by (simp add: querySelector_in_def find_first_None_iff)
    then have "count_matches is_protect (kids_at d2 c) = 0"
      using wrapper_facts(2)[of link s] by (simp add: ks w_def)
    then have pn: "querySelector_in is_protect d2 c = None"
      by (simp add: querySelector_in_def find_first_None_iff)
    have e2: "elem_at d2 c" using e c unfolding d2_def pos_def by (simp add: elem_at_info info_at_insert_above)
    have l2: "length (kids_at d2 c) = Suc (length (kids_at d c))" by (simp add: ks)
    have n2: "node_at d2 pos = Some w" unfolding d2_def using ok[folded pos_def] by (rule node_at_insert_same)
    have npre: "\<not> prefix pos c" by (simp add: pos_def)
    have sh: "shift pos (c @ [Suc (length (kids_at d c))]) = pos" by (simp add: pos_def shift_sibling)
    have rm: "remove_at pos d2 = d" unfolding d2_def using ok[folded pos_def] by (rule remove_insert)
    have mv: "insertBefore_move c pos None d2 = Some (d2, pos)"
      using c e2 l2 n2 npre sh rm
      by (simp add: insertBefore_move_def ref_pos_def Let_def pos_def[symmetric] d2_def[symmetric])
        (simp add: pos_def)
    have "repairExisting_doc d2 = map_at pos (restyle []) d2"
      using fi fc pn mv by (simp add: repairExisting_doc_def Let_def)
    also have "\<dots> = insert_at pos (restyle [] w) d"
      unfolding d2_def using ok[folded pos_def] by (rule map_insert)
    finally show ?thesis using Some by simp
  qed
  show "try_place d c (wrapper link s)
           = Some (insert_at (c @ [length (kids_at d c)])
                     (if querySelector is_container d = None then wrapper link s
                      else restyle [] (wrapper link s)) d)"
    using np nn ins rep by (simp add: try_place_def w_def[symmetric] pos_def[symmetric])
qed

section \<open>What a creation leaves behind\<close>

lemma icon_for_copy_classes [simp]: "icon_for link (copy_classes cls n) = icon_for link n"
  by (cases n) (auto simp: is_icon_def)

lemma icon_for_restyle [simp]: "icon_for link (restyle h n) = icon_for link n"
  by (cases n) (auto simp: restyle_def is_icon_def)

lemma icon_for_wrapper [simp]: "icon_for link (wrapper link s)"
  by (simp add: wrapper_def is_icon_def plain_def)

lemma icon_at_iff: "icon_at d p link \<longleftrightarrow> (\<exists>n. node_at d p = Some n \<and> icon_for link n)"
  by (auto simp: icon_at_def split: option.splits node.splits)

lemma cleared_count0: "at_most_one_icon (doc s) \<Longrightarrow> count_matches is_icon (cleared s) = 0"
  unfolding cleared_def at_most_one_icon_def by (rule removeIcon_doc_count0)

lemma plain_child_wrapper [simp]: "plain_child (wrapper link s)"
  by (simp add: plain_child_def wrapper_def childEl_def img_node_def makeInlineSvg_def plain_def)

lemma plain_child_copy_classes [simp]: "plain_child (copy_classes cls n) = plain_child n"
  by (cases n) (simp_all add: plain_child_def)

lemma scrub_childEl: "\<exists>ci cks. scrub [childEl s] = [Elem ci cks] \<and> click_link ci = None"
  by (simp add: scrub_def childEl_def img_node_def makeInlineSvg_def plain_def)

lemma plain_child_restyle_wrapper [simp]: "plain_child (restyle h (wrapper link s))"
  using scrub_childEl[of s] by (auto simp: restyle_def plain_child_def wrapper_def)

lemma createIcon_shape:
  assumes nd: "\<not> debounced now s" and one: "at_most_one_icon (doc s)"
      and rc: "resolve_container (cleared s) = Some c"
  shows "\<exists>pos n. pos_ok (cleared s) pos \<and> icon_for link n \<and> plain_child n \<and>
           createIcon now link s = Returned (s\<lparr>last_ms := now, doc := insert_at pos n (cleared s)\<rparr>)"
proof -
  define d1 where "d1 = cleared s"
  define w where "w = wrapper link s"
  have c: "c \<noteq> []" using rc by (rule resolve_container_nonempty)
  have e: "elem_at d1 c" using rc unfolding d1_def by (rule resolve_container_elem)
  have "\<exists>pos n. pos_ok d1 pos \<and> icon_for link n \<and> plain_child n \<and>
          try_place d1 c w = Some (insert_at pos n d1)"
  proof (cases "querySelector_in is_protect d1 c")
    case (Some a)
    from try_place_protect(1)[OF c Some, of w] try_place_protect(2)[OF c Some] show ?thesis
      by (intro exI[of _ "next_pos a"] exI[of _ "copy_classes (classes_at d1 (butlast a)) w"])
         (simp add: w_def)
  next
    case None
    show ?thesis
    proof (cases "querySelector_in is_network d1 c")
      case (Some n)
      from place_after_host_ok(1)[OF c e Some, of w] place_after_host_ok(2)[OF c e Some] None Some show ?thesis
        by (intro exI[of _ "icon_pos d1 c n"] exI[of _ "copy_classes (classes_at d1 (host_of c n)) w"])
           (simp add: w_def try_place_def)
    next
      case nn: None
      note z = cleared_count0[OF one, folded d1_def]
      from try_place_neither(1)[OF rc[folded d1_def] None nn z, of link s]
           try_place_neither(2)[OF rc[folded d1_def] None nn z]
      show ?thesis
        by (intro exI[of _ "c @ [length (kids_at d1 c)]"]
                  exI[of _ "if querySelector is_container d1 = None then w else restyle [] w"])
           (simp add: w_def)
    qed
  qed
  then obtain pos n where "pos_ok d1 pos" "icon_for link n" "plain_child n"
    "try_place d1 c w = Some (insert_at pos n d1)"
    by blast
  then show ?thesis using nd rc
    by (intro exI[of _ pos] exI[of _ n])
       (simp add: createIcon_def cleared_def[symmetric] d1_def[symmetric] w_def[symmetric])
qed

lemma icon_for_root: "icon_for link n \<Longrightarrow> \<exists>i cs. n = Elem i cs \<and> is_icon i \<and> click_link i = Some link"
  by (cases n) auto

lemma cleared_after_create:
  assumes one: "at_most_one_icon (doc s)"
  shows "cleared (state_of (createIcon now link s)) = cleared s"
proof (cases "debounced now s")
  case True then show ?thesis by (simp add: createIcon_debounced)
next
  case False
  have z: "count_matches is_icon (cleared s) = 0" using one by (rule cleared_count0)
  show ?thesis
  proof (cases "resolve_container (cleared s)")
    case None
    then have "doc (state_of (createIcon now link s)) = cleared s"
      using False by (simp add: createIcon_def cleared_def)
    moreover have "removeIcon_doc (cleared s) = cleared s"
      using z by (simp add: removeIcon_doc_def find_first_None_iff[symmetric])
    ultimately show ?thesis by (simp add: cleared_def)
  next
    case (Some c)
    from createIcon_shape[OF False one Some, of link] obtain pos n where
      ok: "pos_ok (cleared s) pos" and n: "icon_for link n"
      and r: "createIcon now link s = Returned (s\<lparr>last_ms := now, doc := insert_at pos n (cleared s)\<rparr>)"
      by blast
    from icon_for_root[OF n] obtain i cs where ni: "n = Elem i cs" "is_icon i" by blast
    have "find_first is_icon (insert_at pos n (cleared s)) = Some pos"
      using z ok ni by (rule find_first_insert_fresh)
    then have "removeIcon_doc (insert_at pos n (cleared s)) = cleared s"
      using ok by (simp add: removeIcon_doc_def remove_insert)
    then show ?thesis using r by (simp add: cleared_def)
  qed
qed

lemma createIcon_exactly_one:
  assumes nd: "\<not> debounced now s" and one: "at_most_one_icon (doc s)"
      and rc: "resolve_container (cleared s) \<noteq> None"
  shows "count_matches is_icon (placed now link s) = 1"
proof -
  from rc obtain c where c: "resolve_container (cleared s) = Some c" by auto
  from createIcon_shape[OF nd one c, of link] obtain pos n where
    ok: "pos_ok (cleared s) pos" and n: "icon_for link n"
    and r: "createIcon now link s = Returned (s\<lparr>last_ms := now, doc := insert_at pos n (cleared s)\<rparr>)"
    by blast
  from icon_for_root[OF n] obtain i cs where ni: "n = Elem i cs" "is_icon i" by blast
  have "node_at (placed now link s) pos = Some (Elem i cs)"
    using r ok ni by (simp add: placed_def node_at_insert_same)
  then have "1 \<le> count_matches is_icon (placed now link s)" using ni(2) by (rule node_at_count_pos)
  moreover have "count_matches is_icon (placed now link s) \<le> 1"
    using createIcon_single[OF one, of now link] by (simp add: placed_def at_most_one_icon_def)
  ultimately show ?thesis by simp
qed

text \<open>
  Claim C2, as amended. Take a state with at most one icon whose document, apart from that
  icon, offers a container (the header container, the anchors' common ancestor, or the
  body), and whose \<^verbatim>\<open>_last\<close> is not in the future of the first call. Two calls of
  \<^verbatim>\<open>createIcon\<close>, the second at least 500 ms after the first, leave exactly one element
  with the icon's id.
\<close>

theorem placement_idempotent:
  assumes one: "at_most_one_icon (doc s)"
      and rc: "resolve_container (cleared s) \<noteq> None"
      and mono: "last_ms s \<le> t1" and gap: "500 \<le> t2 - t1"
  shows "count_matches is_icon (doc (run s [Create t1 link1, Create t2 link2])) = 1"
proof -
  define s1 where "s1 = state_of (createIcon t1 link1 s)"
  have one1: "at_most_one_icon (doc s1)" unfolding s1_def using one by (rule createIcon_single)
  have cl: "cleared s1 = cleared s" unfolding s1_def using one by (rule cleared_after_create)
  have "last_ms s1 = t1 \<or> last_ms s1 = last_ms s"
    unfolding s1_def by (cases "debounced t1 s") (auto simp: createIcon_last createIcon_debounced)
  with mono gap have nd: "\<not> debounced t2 s1" by (auto simp: debounced_def)
  have "count_matches is_icon (placed t2 link2 s1) = 1"
    using nd one1 rc[folded cl] by (rule createIcon_exactly_one)
  then show ?thesis by (simp add: run_def placed_def s1_def)
qed

theorem placement_idempotent_witness:
  "at_most_one_icon (doc (fresh_state unifi_page)) \<and>
   resolve_container (cleared (fresh_state unifi_page)) \<noteq> None \<and>
   last_ms (fresh_state unifi_page) \<le> 1000 \<and> (500::int) \<le> 1500 - 1000 \<and>
   count_matches is_icon
     (doc (run (fresh_state unifi_page)
            [Create 1000 (Some ''https://files.example.org/x''), Create 1500 None])) = 1"
proof -
  have h1: "at_most_one_icon (doc (fresh_state unifi_page))" by code_simp
  have h2: "resolve_container (cleared (fresh_state unifi_page)) \<noteq> None" by code_simp
  have h3: "last_ms (fresh_state unifi_page) \<le> 1000" by (simp add: fresh_state_def)
  have h4: "(500::int) \<le> 1500 - 1000" by simp
  from placement_idempotent[OF h1 h2 h3 h4] h1 h2 h3 h4 show ?thesis by blast
qed

text \<open>
  Claim C2 as stated speaks of every document state. \<^verbatim>\<open>createIcon\<close> removes the one element
  \<^verbatim>\<open>getElementById\<close> returns, the first with the icon's id, and nothing in the script
  removes a second one: a page that holds two such elements, one before the header and one
  after it, still holds two after two calls 1000 ms apart (the first call takes away the
  element before the header and places its icon in the header; the second call takes that
  icon away and places its own).
\<close>

theorem placement_idempotent_counterexample:
  "count_matches is_icon (doc (fresh_state two_icon_page)) = 2 \<and>
   resolve_container (cleared (fresh_state two_icon_page)) \<noteq> None \<and>
   last_ms (fresh_state two_icon_page) \<le> 1000 \<and> (500::int) \<le> 2000 - 1000 \<and>
   count_matches is_icon
     (doc (run (fresh_state two_icon_page) [Create 1000 None, Create 2000 None])) = 2"
  by code_simp

section \<open>Placement without the protect anchor\<close>

text \<open>
  Claim C4, as amended. Take a call that is not suppressed, on a document whose container
  resolves and holds no protect anchor. If the container holds a network anchor, the call
  returns, the anchor is left as it was, and the icon is the next element sibling of the
  anchor's visual host (it is inserted before the host's next element sibling, or at the
  end of the container). If the container holds neither anchor and the document held at
  most one icon, the call returns and the icon is the container's last child.
\<close>

theorem fallback_ordering:
  assumes nd: "\<not> debounced now s"
      and rc: "resolve_container (cleared s) = Some c"
      and np: "querySelector_in is_protect (cleared s) c = None"
  shows "(querySelector_in is_network (cleared s) c = Some n \<longrightarrow>
            \<not> threw (createIcon now link s) \<and>
            node_at (placed now link s) n = node_at (cleared s) n \<and>
            icon_at (placed now link s) (icon_pos (cleared s) c n) link \<and>
            nextElementChild (placed now link s) (host_of c n) = Some (icon_pos (cleared s) c n)) \<and>
         (querySelector_in is_network (cleared s) c = None \<and> at_most_one_icon (doc s) \<longrightarrow>
            \<not> threw (createIcon now link s) \<and>
            icon_at (placed now link s) (c @ [length (kids_at (cleared s) c)]) link \<and>
            node_at (placed now link s) (c @ [Suc (length (kids_at (cleared s) c))]) = None)"
proof (intro conjI impI)
  define d1 where "d1 = cleared s"
  define w where "w = wrapper link s"
  have c: "c \<noteq> []" using rc by (rule resolve_container_nonempty)
  have e: "elem_at d1 c" using rc unfolding d1_def by (rule resolve_container_elem)
  {
    assume nn: "querySelector_in is_network (cleared s) c = Some n"
    define w' where "w' = copy_classes (classes_at d1 (host_of c n)) w"
    note pl = place_after_host_ok[OF c e nn[folded d1_def]]
    note hf = host_found[OF c nn[folded d1_def]]
    from hf(2) obtain k rest where h: "host_of c n = c @ [k]" and kl: "k < length (kids_at d1 c)"
      and nk: "n = c @ k # rest" by blast
    from icon_pos_facts(1)[OF c e h kl] obtain u where ip: "icon_pos d1 c n = c @ [u]" and ku: "k < u"
      and ul: "u \<le> length (kids_at d1 c)" and gap: "\<forall>j. k < j \<and> j < u \<longrightarrow> \<not> is_elem (kids_at d1 c ! j)"
      by blast
    have tp: "try_place d1 c w = Some (insert_at (c @ [u]) w' d1)"
      using np nn pl(1)[of w] ip by (simp add: try_place_def d1_def w'_def)
    have res: "createIcon now link s = Returned (s\<lparr>last_ms := now, doc := insert_at (c @ [u]) w' d1\<rparr>)"
      using nd rc tp by (simp add: createIcon_def cleared_def[symmetric] d1_def[symmetric] w_def[symmetric])
    then have pd: "placed now link s = insert_at (c @ [u]) w' d1" by (simp add: placed_def)
    have ok: "pos_ok d1 (c @ [u])" using pl(2) ip by simp
    show "\<not> threw (createIcon now link s)" using res by simp
    show "node_at (placed now link s) n = node_at (cleared s) n"
      unfolding pd nk d1_def[symmetric] using ok ku by (rule node_at_insert_before)
    show "icon_at (placed now link s) (icon_pos (cleared s) c n) link"
      unfolding pd d1_def[symmetric] ip using ok
      by (simp add: icon_at_iff node_at_insert_same w'_def w_def)
    show "nextElementChild (placed now link s) (host_of c n) = Some (icon_pos (cleared s) c n)"
      unfolding pd d1_def[symmetric] ip h using c e ku ul gap
      by (rule next_element_after_insert) (simp add: w'_def w_def)
  }
  {
    assume a: "querySelector_in is_network (cleared s) c = None \<and> at_most_one_icon (doc s)"
    then have nn: "querySelector_in is_network d1 c = None" and one: "at_most_one_icon (doc s)"
      by (simp_all add: d1_def)
    define pos where "pos = c @ [length (kids_at d1 c)]"
    define w'' where "w'' = (if querySelector is_container d1 = None then w else restyle [] w)"
    note z = cleared_count0[OF one, folded d1_def]
    note tn = try_place_neither[OF rc[folded d1_def] np[folded d1_def] nn z]
    have tp: "try_place d1 c w = Some (insert_at pos w'' d1)"
      unfolding w_def w''_def pos_def by (rule tn(1))
    have res: "createIcon now link s = Returned (s\<lparr>last_ms := now, doc := insert_at pos w'' d1\<rparr>)"
      using nd rc tp
      by (simp add: createIcon_def cleared_def[symmetric] d1_def[symmetric] w_def[symmetric])
    then have pd: "placed now link s = insert_at pos w'' d1" by (simp add: placed_def)
    have ok: "pos_ok d1 pos" using tn(2) by (simp add: pos_def)
    show "\<not> threw (createIcon now link s)" using res by simp
    show "icon_at (placed now link s) (c @ [length (kids_at (cleared s) c)]) link"
      unfolding pd d1_def[symmetric] pos_def[symmetric] using ok
      by (simp add: icon_at_iff node_at_insert_same w''_def w_def)
    have "kids_at (insert_at pos w'' d1) c
            = take (length (kids_at d1 c)) (kids_at d1 c) @ w'' # drop (length (kids_at d1 c)) (kids_at d1 c)"
      unfolding pos_def using c e by (rule kids_at_insert)
    then have "length (kids_at (insert_at pos w'' d1) c) = Suc (length (kids_at d1 c))" by simp
    then show "node_at (placed now link s) (c @ [Suc (length (kids_at (cleared s) c))]) = None"
      unfolding pd d1_def[symmetric] using c by (simp add: node_at_snoc)
  }
qed


theorem fallback_ordering_witness:
  "\<not> debounced 1000 (fresh_state network_page) \<and>
   resolve_container (cleared (fresh_state network_page)) = Some [0, 1, 0] \<and>
   querySelector_in is_protect (cleared (fresh_state network_page)) [0, 1, 0] = None \<and>
   querySelector_in is_network (cleared (fresh_state network_page)) [0, 1, 0] = Some [0, 1, 0, 0, 0] \<and>
   \<not> threw (createIcon 1000 None (fresh_state network_page)) \<and>
   node_at (placed 1000 None (fresh_state network_page)) [0, 1, 0, 0, 0]
     = node_at (cleared (fresh_state network_page)) [0, 1, 0, 0, 0] \<and>
   icon_at (placed 1000 None (fresh_state network_page))
     (icon_pos (cleared (fresh_state network_page)) [0, 1, 0] [0, 1, 0, 0, 0]) None \<and>
   nextElementChild (placed 1000 None (fresh_state network_page)) (host_of [0, 1, 0] [0, 1, 0, 0, 0])
     = Some (icon_pos (cleared (fresh_state network_page)) [0, 1, 0] [0, 1, 0, 0, 0]) \<and>
   \<not> debounced 1000 (fresh_state plain_page) \<and>
   resolve_container (cleared (fresh_state plain_page)) = Some [0, 1] \<and>
   querySelector_in is_protect (cleared (fresh_state plain_page)) [0, 1] = None \<and>
   querySelector_in is_network (cleared (fresh_state plain_page)) [0, 1] = None \<and>
   at_most_one_icon (doc (fresh_state plain_page)) \<and>
   \<not> threw (createIcon 1000 None (fresh_state plain_page)) \<and>
   icon_at (placed 1000 None (fresh_state plain_page))
     ([0, 1] @ [length (kids_at (cleared (fresh_state plain_page)) [0, 1])]) None \<and>
   node_at (placed 1000 None (fresh_state plain_page))
     ([0, 1] @ [Suc (length (kids_at (cleared (fresh_state plain_page)) [0, 1]))]) = None"
proof -
  have a1: "\<not> debounced 1000 (fresh_state network_page)" by code_simp
  have a2: "resolve_container (cleared (fresh_state network_page)) = Some [0, 1, 0]" by code_simp
  have a3: "querySelector_in is_protect (cleared (fresh_state network_page)) [0, 1, 0] = None" by code_simp
  have a4: "querySelector_in is_network (cleared (fresh_state network_page)) [0, 1, 0] = Some [0, 1, 0, 0, 0]"
    by code_simp
  have b1: "\<not> debounced 1000 (fresh_state plain_page)" by code_simp
  have b2: "resolve_container (cleared (fresh_state plain_page)) = Some [0, 1]" by code_simp
  have b3: "querySelector_in is_protect (cleared (fresh_state plain_page)) [0, 1] = None" by code_simp
  have b4: "querySelector_in is_network (cleared (fresh_state plain_page)) [0, 1] = None" by code_simp
  have b5: "at_most_one_icon (doc (fresh_state plain_page))" by code_simp
  from fallback_ordering[OF a1 a2 a3, of "[0, 1, 0, 0, 0]" None]
       fallback_ordering[OF b1 b2 b3, of "[]" None] a1 a2 a3 a4 b1 b2 b3 b4 b5
  show ?thesis by blast
qed

text \<open>
  Claim C4 as stated speaks of every document that lacks the protect anchor and contains
  the network anchor. The anchors are looked up inside the container only: on a page whose
  header container exists and whose network anchor sits elsewhere (here in a \<^verbatim>\<open>nav\<close>
  beside the header), the icon is appended to the header container; its parent does not
  contain the anchor, so it is adjacent neither to the anchor nor to any element holding it.
\<close>

theorem fallback_ordering_counterexample:
  "querySelector is_protect nav_page = None \<and>
   querySelector is_network nav_page = Some [0, 1, 1, 0] \<and>
   find_first is_icon (placed 1000 None (fresh_state nav_page)) = Some [0, 1, 0, 1] \<and>
   \<not> prefix (butlast [0, 1, 0, 1]) [0, 1, 1, 0 :: nat]"
  by code_simp

section \<open>The click\<close>

lemma createIcon_log [simp]:
  "opened (state_of (createIcon now link s)) = opened s"
  "prevented (state_of (createIcon now link s)) = prevented s"
  by (simp_all add: createIcon_def Let_def split: option.splits)

lemma or_str_idem [simp]: "or_str (or_str a DEFAULT_LINK) DEFAULT_LINK = or_str a DEFAULT_LINK"
  by (simp add: or_str_def)

lemma or_str_default_nonempty [simp]: "or_str a DEFAULT_LINK \<noteq> []"
  by (simp add: or_str_def DEFAULT_LINK_def)








lemma debounced_upd [simp]:
  "debounced t (s\<lparr>currentDriveLink := x\<rparr>) = debounced t s"
  "debounced t (s\<lparr>pending := y\<rparr>) = debounced t s"
  by (simp_all add: debounced_def)

lemma cleared_upd [simp]:
  "cleared (s\<lparr>currentDriveLink := x\<rparr>) = cleared s"
  "cleared (s\<lparr>pending := y\<rparr>) = cleared s"
  by (simp_all add: cleared_def)

lemma apply_settings_shape:
  assumes nd: "\<not> debounced t s" and one: "at_most_one_icon (doc s)"
      and rc: "resolve_container (cleared s) \<noteq> None"
  shows "\<exists>pos n. pos_ok (cleared s) pos \<and> icon_for (Some (or_str link DEFAULT_LINK)) n \<and> plain_child n \<and>
           apply_settings t link delay s =
             Returned (s\<lparr>last_ms := t, doc := insert_at pos n (cleared s),
                         timers := timers s @ (if delay > 0
                                               then [(t + delay * 1000, or_str link DEFAULT_LINK)]
                                               else [])\<rparr>)"
proof -
  from rc obtain c where c: "resolve_container (cleared s) = Some c" by auto
  from createIcon_shape[OF nd one c, of "Some (or_str link DEFAULT_LINK)"] obtain pos n where
    ok: "pos_ok (cleared s) pos" and n: "icon_for (Some (or_str link DEFAULT_LINK)) n"
    and pc: "plain_child n"
    and r: "createIcon t (Some (or_str link DEFAULT_LINK)) s
              = Returned (s\<lparr>last_ms := t, doc := insert_at pos n (cleared s)\<rparr>)"
    by blast
  have "apply_settings t link delay s =
             Returned (s\<lparr>last_ms := t, doc := insert_at pos n (cleared s),
                         timers := timers s @ (if delay > 0
                                               then [(t + delay * 1000, or_str link DEFAULT_LINK)]
                                               else [])\<rparr>)"
    using r by (simp add: apply_settings_def)
  with ok n pc show ?thesis by blast
qed

lemma pending_same:
  "pending s = [] \<Longrightarrow> s\<lparr>pending := [], currentDriveLink := x\<rparr> = s\<lparr>currentDriveLink := x\<rparr>"
  by (cases s) simp

lemma load_and_place_shape:
  assumes nd: "\<not> debounced (placing_clock now later s) s" and one: "at_most_one_icon (doc s)"
      and rc: "resolve_container (cleared s) \<noteq> None" and np: "pending s = []"
  shows "\<exists>pos n. pos_ok (cleared s) pos \<and> icon_for (Some (loaded_link s)) n \<and> plain_child n \<and>
           load_and_place now later s =
             s\<lparr>currentDriveLink := loaded_link s, last_ms := placing_clock now later s,
                doc := insert_at pos n (cleared s),
                timers := timers s @ scheduled (placing_clock now later s) s\<rparr>"
proof (cases "storage s = StorageOk")
  case True
  define dl where "dl = (case stored_link s of None \<Rightarrow> [] | Some v \<Rightarrow> v)"
  define dc where "dc = (case stored_delay s of None \<Rightarrow> 5 | Some v \<Rightarrow> v)"
  define s0 where "s0 = s\<lparr>currentDriveLink := or_str dl DEFAULT_LINK\<rparr>"
  have L: "loaded_link s = or_str dl DEFAULT_LINK" using True by (simp add: loaded_link_def configured_link_def dl_def)
  have D: "loaded_delay s = dc" using True by (simp add: loaded_delay_def dc_def)
  have T: "placing_clock now later s = later" using True by (simp add: placing_clock_def)
  have lp: "load_and_place now later s = state_of (apply_settings later (or_str dl DEFAULT_LINK) dc s0)"
    using True np
    by (simp add: pending_same load_and_place_def then_answered_def loadAndCreate_def storage_callback_def
          dl_def[symmetric] dc_def[symmetric] s0_def)
  have nd0: "\<not> debounced later s0" using nd T by (simp add: s0_def)
  have one0: "at_most_one_icon (doc s0)" using one by (simp add: s0_def)
  have rc0: "resolve_container (cleared s0) \<noteq> None" using rc by (simp add: s0_def)
  from apply_settings_shape[OF nd0 one0 rc0, of "or_str dl DEFAULT_LINK" dc] obtain pos n where
    ok: "pos_ok (cleared s0) pos" and n: "icon_for (Some (or_str dl DEFAULT_LINK)) n"
    and pc: "plain_child n"
    and r: "apply_settings later (or_str dl DEFAULT_LINK) dc s0 =
             Returned (s0\<lparr>last_ms := later, doc := insert_at pos n (cleared s0),
                         timers := timers s0 @ (if dc > 0
                                               then [(later + dc * 1000, or_str dl DEFAULT_LINK)]
                                               else [])\<rparr>)"
    by auto
  have "load_and_place now later s =
             s\<lparr>currentDriveLink := loaded_link s, last_ms := placing_clock now later s,
                doc := insert_at pos n (cleared s),
                timers := timers s @ scheduled (placing_clock now later s) s\<rparr>"
    using lp r by (simp add: L D T s0_def scheduled_def)
  moreover have "pos_ok (cleared s) pos" using ok by (simp add: s0_def)
  ultimately show ?thesis using n pc L by auto
next
  case False
  define s0 where "s0 = s\<lparr>currentDriveLink := DEFAULT_LINK\<rparr>"
  have L: "loaded_link s = DEFAULT_LINK" using False by (simp add: loaded_link_def)
  have D: "loaded_delay s = 5" using False by (simp add: loaded_delay_def)
  have T: "placing_clock now later s = now" using False by (simp add: placing_clock_def)
  have lp: "load_and_place now later s = state_of (apply_settings now DEFAULT_LINK 5 s0)"
    using False
    by (cases "storage s") (simp_all add: load_and_place_def then_answered_def loadAndCreate_def s0_def)
  have nd0: "\<not> debounced now s0" using nd T by (simp add: s0_def)
  have one0: "at_most_one_icon (doc s0)" using one by (simp add: s0_def)
  have rc0: "resolve_container (cleared s0) \<noteq> None" using rc by (simp add: s0_def)
  have dd: "or_str DEFAULT_LINK DEFAULT_LINK = DEFAULT_LINK" by (simp add: or_str_def)
  from apply_settings_shape[OF nd0 one0 rc0, of DEFAULT_LINK 5] obtain pos n where
    ok: "pos_ok (cleared s0) pos" and n: "icon_for (Some DEFAULT_LINK) n"
    and pc: "plain_child n"
    and r: "apply_settings now DEFAULT_LINK 5 s0 =
             Returned (s0\<lparr>last_ms := now, doc := insert_at pos n (cleared s0),
                         timers := timers s0 @ [(now + 5 * 1000, DEFAULT_LINK)]\<rparr>)"
    by (auto simp: dd)
  have "load_and_place now later s =
             s\<lparr>currentDriveLink := loaded_link s, last_ms := placing_clock now later s,
                doc := insert_at pos n (cleared s),
                timers := timers s @ scheduled (placing_clock now later s) s\<rparr>"
    using lp r by (simp add: L D T s0_def scheduled_def)
  moreover have "pos_ok (cleared s) pos" using ok by (simp add: s0_def)
  ultimately show ?thesis using n pc L by auto
qed

lemma loaded_link_nonempty [simp]: "loaded_link s \<noteq> []"
  by (simp add: loaded_link_def configured_link_def DEFAULT_LINK_def or_str_def)




section \<open>The observer\<close>

lemma load_and_place_single:
  assumes "at_most_one_icon (doc s)"
  shows "at_most_one_icon (doc (load_and_place now later s))"
  using loadAndCreate_single[OF assms, of now]
        storage_callback_single[OF loadAndCreate_single[OF assms, of now], of later]
  by (cases "storage s") (simp_all add: load_and_place_def then_answered_def)

text \<open>
  Claim C9. Let the observer callback fire while the icon is missing or lies outside the
  body. If \<^verbatim>\<open>_last\<close> is less than 1000 ms old, the callback returns and changes nothing. If
  not, it runs \<^verbatim>\<open>loadAndCreate\<close>. What that run does is shown for a state with at most one
  icon, a document that offers a container and no storage read in flight, the read being
  answered (at a clock reading not before the callback's) before anything else runs:
  \<^verbatim>\<open>_currentDriveLink\<close> becomes the loaded link (the stored one, or the default), the
  document holds exactly one element with the icon's id, its listener holds the loaded
  link, \<^verbatim>\<open>_last\<close> is the clock reading of the placement (that of the answer with the storage
  API, that of the callback without it), and the delayed creation of the loaded delay is
  scheduled.
\<close>

theorem observer_recreates:
  assumes md: "icon_missing_or_detached (doc s)"
  shows "(now - last_ms s < 1000 \<longrightarrow> observer_callback now s = Returned s) \<and>
         (1000 \<le> now - last_ms s \<longrightarrow> observer_callback now s = loadAndCreate now s) \<and>
         (1000 \<le> now - last_ms s \<and> now \<le> later \<and> pending s = [] \<and>
          at_most_one_icon (doc s) \<and> resolve_container (cleared s) \<noteq> None \<longrightarrow>
            currentDriveLink (then_answered later s (observer_callback now s)) = loaded_link s \<and>
            count_matches is_icon (doc (then_answered later s (observer_callback now s))) = 1 \<and>
            the_icon_link (doc (then_answered later s (observer_callback now s)))
              = Some (Some (loaded_link s)) \<and>
            last_ms (then_answered later s (observer_callback now s)) = placing_clock now later s \<and>
            timers (then_answered later s (observer_callback now s))
              = timers s @ scheduled (placing_clock now later s) s)"
proof (intro conjI impI)
  assume "now - last_ms s < 1000"
  then show "observer_callback now s = Returned s"
    using md by (auto simp: observer_callback_def icon_missing_or_detached_def split: option.splits)
next
  assume "1000 \<le> now - last_ms s"
  then show "observer_callback now s = loadAndCreate now s"
    using md by (auto simp: observer_callback_def icon_missing_or_detached_def split: option.splits)
next
  assume a: "1000 \<le> now - last_ms s \<and> now \<le> later \<and> pending s = [] \<and>
          at_most_one_icon (doc s) \<and> resolve_container (cleared s) \<noteq> None"
  then have eq: "observer_callback now s = loadAndCreate now s"
    using md by (auto simp: observer_callback_def icon_missing_or_detached_def split: option.splits)
  have lp: "then_answered later s (observer_callback now s) = load_and_place now later s"
    by (simp add: eq load_and_place_def)
  have nd: "\<not> debounced (placing_clock now later s) s"
    using a by (simp add: debounced_def placing_clock_def)
  from a have one: "at_most_one_icon (doc s)" and rc: "resolve_container (cleared s) \<noteq> None"
    and np: "pending s = []" by simp_all
  from load_and_place_shape[OF nd one rc np] obtain pos n where
    ok: "pos_ok (cleared s) pos" and n: "icon_for (Some (loaded_link s)) n" and pc: "plain_child n"
    and r: "load_and_place now later s =
             s\<lparr>currentDriveLink := loaded_link s, last_ms := placing_clock now later s,
                doc := insert_at pos n (cleared s),
                timers := timers s @ scheduled (placing_clock now later s) s\<rparr>"
    by blast
  have z: "count_matches is_icon (cleared s) = 0" using one by (rule cleared_count0)
  from icon_for_root[OF n] obtain i cs where ni: "n = Elem i cs" "is_icon i" "click_link i = Some (Some (loaded_link s))" by blast
  have ds: "doc (load_and_place now later s) = insert_at pos n (cleared s)" by (simp add: r)
  have f: "find_first is_icon (insert_at pos n (cleared s)) = Some pos"
    using z ok ni(1,2) by (rule find_first_insert_fresh)
  have g: "node_at (insert_at pos n (cleared s)) pos = Some (Elem i cs)"
    using ok ni(1) by (simp add: node_at_insert_same)
  have "1 \<le> count_matches is_icon (insert_at pos n (cleared s))"
    using g ni(2) by (rule node_at_count_pos)
  moreover have "count_matches is_icon (insert_at pos n (cleared s)) \<le> 1"
    using load_and_place_single[OF one, of now later] by (simp add: ds at_most_one_icon_def)
  ultimately have c1: "count_matches is_icon (insert_at pos n (cleared s)) = 1" by simp
  show "currentDriveLink (then_answered later s (observer_callback now s)) = loaded_link s"
    by (simp add: lp r)
  show "last_ms (then_answered later s (observer_callback now s)) = placing_clock now later s"
    by (simp add: lp r)
  show "timers (then_answered later s (observer_callback now s))
              = timers s @ scheduled (placing_clock now later s) s"
    by (simp add: lp r)
  show "the_icon_link (doc (then_answered later s (observer_callback now s)))
              = Some (Some (loaded_link s))"
    using f g ni(3) by (simp add: lp ds the_icon_link_def)
  show "count_matches is_icon (doc (then_answered later s (observer_callback now s))) = 1"
    using c1 by (simp add: lp ds)
qed

theorem observer_recreates_witness:
  "icon_missing_or_detached (doc removed_once) \<and> 1400 - last_ms removed_once < 1000 \<and>
   observer_callback 1400 removed_once = Returned removed_once \<and>
   icon_missing_or_detached (doc (fresh_state unifi_page)) \<and>
   1000 \<le> 2500 - last_ms (fresh_state unifi_page) \<and> (2500::int) \<le> 2501 \<and>
   pending (fresh_state unifi_page) = [] \<and> at_most_one_icon (doc (fresh_state unifi_page)) \<and>
   resolve_container (cleared (fresh_state unifi_page)) \<noteq> None \<and>
   observer_callback 2500 (fresh_state unifi_page) = loadAndCreate 2500 (fresh_state unifi_page) \<and>
   currentDriveLink (then_answered 2501 (fresh_state unifi_page)
                       (observer_callback 2500 (fresh_state unifi_page))) = ''https://example.com'' \<and>
   count_matches is_icon (doc (then_answered 2501 (fresh_state unifi_page)
                                 (observer_callback 2500 (fresh_state unifi_page)))) = 1 \<and>
   the_icon_link (doc (then_answered 2501 (fresh_state unifi_page)
                         (observer_callback 2500 (fresh_state unifi_page))))
     = Some (Some ''https://example.com'') \<and>
   last_ms (then_answered 2501 (fresh_state unifi_page)
              (observer_callback 2500 (fresh_state unifi_page))) = 2501 \<and>
   timers (then_answered 2501 (fresh_state unifi_page)
             (observer_callback 2500 (fresh_state unifi_page))) = [(7501, ''https://example.com'')] \<and>
   icon_missing_or_detached (doc demo_state) \<and> 1000 \<le> 2500 - last_ms demo_state \<and>
   pending demo_state = [] \<and> at_most_one_icon (doc demo_state) \<and>
   resolve_container (cleared demo_state) \<noteq> None \<and>
   count_matches is_icon (doc (then_answered 2501 demo_state (observer_callback 2500 demo_state))) = 1 \<and>
   last_ms (then_answered 2501 demo_state (observer_callback 2500 demo_state)) = 2500"
proof -
  have a1: "icon_missing_or_detached (doc removed_once)" by code_simp
  have a2: "1400 - last_ms removed_once < 1000" by code_simp
  have b1: "icon_missing_or_detached (doc (fresh_state unifi_page))" by code_simp
  have b2: "1000 \<le> 2500 - last_ms (fresh_state unifi_page)" by code_simp
  have b3: "pending (fresh_state unifi_page) = []" by code_simp
  have b4: "at_most_one_icon (doc (fresh_state unifi_page))" by code_simp
  have b5: "resolve_container (cleared (fresh_state unifi_page)) \<noteq> None" by code_simp
  have b6: "(2500::int) \<le> 2501" by simp
  have l: "loaded_link (fresh_state unifi_page) = ''https://example.com''" by code_simp
  have p: "placing_clock 2500 2501 (fresh_state unifi_page) = 2501" by code_simp
  have t: "timers (fresh_state unifi_page) @ scheduled 2501 (fresh_state unifi_page)
             = [(7501, ''https://example.com'')]" by code_simp
  have c1: "icon_missing_or_detached (doc demo_state)" by code_simp
  have c2: "1000 \<le> 2500 - last_ms demo_state" by code_simp
  have c3: "pending demo_state = []" by code_simp
  have c4: "at_most_one_icon (doc demo_state)" by code_simp
  have c5: "resolve_container (cleared demo_state) \<noteq> None" by code_simp
  have q: "placing_clock 2500 2501 demo_state = 2500" by code_simp
  from observer_recreates[OF a1, of 1400 1400]
       observer_recreates[OF b1, of 2500 2501, unfolded l p t]
       observer_recreates[OF c1, of 2500 2501, unfolded q]
       a1 a2 b1 b2 b3 b4 b5 b6 c1 c2 c3 c4 c5
  show ?thesis by blast
qed

end
